theory Spec2Isabelle
  imports Complex_Main "HOL-Library.Char_ord" "HOL-Library.List_Lexorder" "HOL-Library.Multiset"
begin

section \<open>Errors of the runtime\<close>

text \<open>
  The exceptions the modelled functions can raise. \<open>UsageError\<close> and \<open>HelpExit\<close> are the
  two ways the command-line parser ends the process (\<open>parser.error\<close>: usage message and
  exit status 2, for a required argument that is missing, an argument that is not
  recognized, or a value that the type of its argument rejects; the help action: help text
  and exit status 0); \<open>ArgumentError\<close> is raised when a flag is registered twice.
\<close>

datatype usage = MissingRequired | Unrecognized | InvalidValue

datatype error
  = IndexError
  | ValueError
  | TypeError
  | ArgumentError
  | UsageError usage
  | HelpExit

section \<open>Learning-rate schedule: \<open>make_lr_schedule\<close>\<close>

text \<open>
  \<open>np.where(help_array <= epoch)[0]\<close>: the ascending array of the positions whose entry
  is at most \<open>epoch\<close>.
\<close>

definition np_where_le :: "int list \<Rightarrow> int \<Rightarrow> nat list" where
  "np_where_le help_array epoch =
     filter (\<lambda>i. help_array ! i \<le> epoch) [0..<length help_array]"

text \<open>
  \<open>np.argmax\<close> of a one-dimensional array: the position of the first occurrence of the
  maximum; an empty array raises \<open>ValueError\<close>.
\<close>

fun argmax_from :: "nat \<Rightarrow> nat \<Rightarrow> nat \<Rightarrow> nat list \<Rightarrow> nat" where
  "argmax_from best_pos best pos [] = best_pos"
| "argmax_from best_pos best pos (x # xs) =
     (if best < x then argmax_from pos x (Suc pos) xs
      else argmax_from best_pos best (Suc pos) xs)"

definition np_argmax :: "nat list \<Rightarrow> error + nat" where
  "np_argmax a = (case a of [] \<Rightarrow> Inl ValueError | x # xs \<Rightarrow> Inr (argmax_from 0 x 1 xs))"

text \<open>
  The inner function \<open>determine_lr\<close> of the branch where both lists are given. Reading
  \<open>lr_sched_epochs[0]\<close> of an empty list and reading \<open>lr_sched_factors[index]\<close> past the
  end raise \<open>IndexError\<close>. The factors are only read, never computed with, so they are
  modelled as reals; the integer \<open>1\<close> of the first branch is the real \<open>1\<close>.
\<close>

definition determine_lr :: "int list \<Rightarrow> real list \<Rightarrow> int \<Rightarrow> error + real" where
  "determine_lr lr_sched_epochs lr_sched_factors epoch =
     (case lr_sched_epochs of
        [] \<Rightarrow> Inl IndexError
      | first # _ \<Rightarrow>
          if epoch < first then Inr 1
          else
            (case np_argmax (np_where_le lr_sched_epochs epoch) of
               Inl e \<Rightarrow> Inl e
             | Inr index \<Rightarrow>
                 if index < length lr_sched_factors then Inr (lr_sched_factors ! index)
                 else Inl IndexError))"

text \<open>
  The scheduler object. \<open>LambdaLR\<close> belongs to the deep-learning framework. Its
  constructor takes its initial step: it evaluates the multiplier function at epoch 0 to
  set the first learning rate, so that an exception of the function at epoch 0 is raised
  by the constructor. Of the object the model keeps the two arguments the source passes:
  the optimizer (which holds the base learning rate) and the multiplier function.
\<close>

record 'opt scheduler =
  sched_optimizer :: 'opt
  lr_lambda :: "int \<Rightarrow> error + real"

definition LambdaLR :: "'opt \<Rightarrow> (int \<Rightarrow> error + real) \<Rightarrow> error + 'opt scheduler" where
  "LambdaLR optimizer f =
     (case f 0 of
        Inl e \<Rightarrow> Inl e
      | Inr multiplier \<Rightarrow> Inr \<lparr>sched_optimizer = optimizer, lr_lambda = f\<rparr>)"

definition make_lr_schedule ::
  "'opt \<Rightarrow> int list option \<Rightarrow> real list option \<Rightarrow> error + 'opt scheduler" where
  "make_lr_schedule optimizer lr_sched_epochs lr_sched_factors =
     (case (lr_sched_factors, lr_sched_epochs) of
        (Some factors, Some epochs) \<Rightarrow> LambdaLR optimizer (determine_lr epochs factors)
      | _ \<Rightarrow> LambdaLR optimizer (\<lambda>epoch. Inr 1))"

section \<open>Floats and their serialisation: \<open>float2str\<close>\<close>

text \<open>
  A Python float is an IEEE-754 binary64 value. \<open>Finite s m e\<close> stands for the value
  \<open>m \<cdot> 2\<^sup>e\<close>, negated when \<open>s\<close> holds; every finite binary64 value has this form,
  and \<open>Finite True 0 e\<close> is the negative zero. The sign of an infinity is \<open>True\<close> for
  the negative one.
\<close>

datatype pyfloat = Finite bool nat int | Infinite bool | NaN

text \<open>\<open>str\<close> of a non-negative and of an arbitrary integer: decimal digits.\<close>

definition digit_char :: "nat \<Rightarrow> char" where
  "digit_char d = ''0123456789'' ! d"

fun str_nat :: "nat \<Rightarrow> string" where
  "str_nat n = (if n < 10 then [digit_char n] else str_nat (n div 10) @ [digit_char (n mod 10)])"

declare str_nat.simps [simp del]

definition str_int :: "int \<Rightarrow> string" where
  "str_int i = (if i < 0 then ''-'' @ str_nat (nat (- i)) else str_nat (nat i))"

text \<open>
  The format \<open>"{:.10e}".format(x)\<close> of the language runtime, which rounds the exact
  value of the float to eleven significant decimal digits (ties to even) and writes the
  decimal exponent with a sign and at least two digits. For a positive fraction
  \<open>n / d\<close>, \<open>decimal_exponent n d\<close> is the integer \<open>k\<close> with
  \<open>10\<^sup>k \<le> n / d < 10\<^sup>k\<^sup>+\<^sup>1\<close>.
\<close>

function scale_down :: "nat \<Rightarrow> nat \<Rightarrow> nat" where
  "scale_down n d = (if 0 < d \<and> 10 * d \<le> n then Suc (scale_down n (10 * d)) else 0)"
  by pat_completeness auto
termination
  by (relation "measure (\<lambda>(n, d). n - d)") auto

function scale_up :: "nat \<Rightarrow> nat \<Rightarrow> nat" where
  "scale_up n d = (if 0 < n \<and> n < d then Suc (scale_up (10 * n) d) else 0)"
  by pat_completeness auto
termination
  by (relation "measure (\<lambda>(n, d). d - n)") auto

declare scale_down.simps [simp del] scale_up.simps [simp del]

definition decimal_exponent :: "nat \<Rightarrow> nat \<Rightarrow> int" where
  "decimal_exponent n d = (if d \<le> n then int (scale_down n d) else - int (scale_up n d))"

definition round_half_even :: "nat \<Rightarrow> nat \<Rightarrow> nat" where
  "round_half_even n d =
     (let q = n div d; r = n mod d
      in if 2 * r < d then q
         else if d < 2 * r then q + 1
         else if even q then q else q + 1)"

definition exponent_str :: "int \<Rightarrow> string" where
  "exponent_str k =
     (if k < 0 then ''-'' else ''+'') @
     (let a = str_nat (nat \<bar>k\<bar>) in if length a < 2 then ''0'' @ a else a)"

definition sign_str :: "bool \<Rightarrow> string" where
  "sign_str s = (if s then ''-'' else [])"

definition format_10e :: "pyfloat \<Rightarrow> string" where
  "format_10e x =
     (case x of
        NaN \<Rightarrow> ''nan''
      | Infinite s \<Rightarrow> sign_str s @ ''inf''
      | Finite s m e \<Rightarrow>
          sign_str s @
          (if m = 0 then ''0.0000000000e+00''
           else
             let n = (if 0 \<le> e then m * 2 ^ nat e else m);
                 d = (if 0 \<le> e then 1 else 2 ^ nat (- e));
                 k = decimal_exponent n d;
                 q = (if k \<le> 10 then round_half_even (n * 10 ^ nat (10 - k)) d
                      else round_half_even n (d * 10 ^ nat (k - 10)));
                 carry = (q = 10 ^ 11);
                 digits = str_nat (if carry then 10 ^ 10 else q);
                 k' = (if carry then k + 1 else k)
             in take 1 digits @ ''.'' @ drop 1 digits @ ''e'' @ exponent_str k'))"

text \<open>\<open>s.split(sep)\<close> for a one-character separator, and \<open>s.rstrip(c)\<close>.\<close>

fun split_on :: "char \<Rightarrow> string \<Rightarrow> string list" where
  "split_on sep [] = [[]]"
| "split_on sep (c # cs) =
     (if c = sep then [] # split_on sep cs
      else (case split_on sep cs of
              part # parts \<Rightarrow> (c # part) # parts
            | [] \<Rightarrow> [[c]]))"

definition rstrip :: "char \<Rightarrow> string \<Rightarrow> string" where
  "rstrip c s = rev (dropWhile (\<lambda>x. x = c) (rev s))"

text \<open>
  \<open>float2str\<close>. Unpacking \<open>s.split("e")\<close> into two names raises \<open>ValueError\<close> unless
  the split has exactly two parts.
\<close>

definition float2str :: "pyfloat \<Rightarrow> error + string" where
  "float2str x =
     (let s = format_10e x
      in case split_on CHR ''e'' s of
           [mantissa, exponent] \<Rightarrow> Inr (rstrip CHR ''0'' mantissa @ ''e'' @ exponent)
         | _ \<Rightarrow> Inl ValueError)"

section \<open>The test problem \<open>cifar10_vgg16\<close>\<close>

text \<open>
  \<open>needle in haystack\<close> on strings: the substring test.
\<close>

fun py_in :: "string \<Rightarrow> string \<Rightarrow> bool" where
  "py_in needle [] = (needle = [])"
| "py_in needle (c # cs) = (take (length needle) (c # cs) = needle \<or> py_in needle cs)"

text \<open>
  The arithmetic that \<open>get_regularization_loss\<close> calls belongs to the deep-learning
  framework and to the language: \<open>parameters.pow(2).sum()\<close> on a parameter tensor, \<open>+\<close>
  and \<open>*\<close> on the resulting values, and the two constants the method writes, the integer
  \<open>0\<close> from which \<open>sum\<close> starts and the float \<open>0.5\<close>. These operations round (the
  tensors hold 32-bit floats), so the model takes them as they are, as parameters: \<open>'t\<close>
  is the type of a parameter tensor and \<open>'v\<close> the type of the values computed from them.
\<close>

record ('t, 'v) arithmetic =
  op_pow2_sum :: "'t \<Rightarrow> 'v"
  op_add :: "'v \<Rightarrow> 'v \<Rightarrow> 'v"
  op_mul :: "'v \<Rightarrow> 'v \<Rightarrow> 'v"
  int_zero :: 'v
  float_half :: 'v

text \<open>\<open>sum(xs)\<close>: starting from \<open>0\<close>, the entries are added from left to right.\<close>

definition py_sum :: "('t, 'v) arithmetic \<Rightarrow> 'v list \<Rightarrow> 'v" where
  "py_sum ar xs = foldl (op_add ar) (int_zero ar) xs"

text \<open>
  The part of the object that \<open>get_regularization_loss\<close> reads: the weight-decay
  coefficient and the named parameters of the network, in the order the network yields
  them.
\<close>

record ('t, 'v) cifar10_vgg16 =
  self_weight_decay :: 'v
  net_named_parameters :: "(string \<times> 't) list"

text \<open>The loop over the named parameters, appending to \<open>layer_norms\<close>.\<close>

fun collect_layer_norms ::
  "('t, 'v) arithmetic \<Rightarrow> (string \<times> 't) list \<Rightarrow> 'v list \<Rightarrow> 'v list" where
  "collect_layer_norms ar [] layer_norms = layer_norms"
| "collect_layer_norms ar ((parameters_name, parameters) # rest) layer_norms =
     (if \<not> py_in ''bias'' parameters_name
      then collect_layer_norms ar rest (layer_norms @ [op_pow2_sum ar parameters])
      else collect_layer_norms ar rest layer_norms)"

definition get_regularization_loss ::
  "('t, 'v) arithmetic \<Rightarrow> ('t, 'v) cifar10_vgg16 \<Rightarrow> 'v" where
  "get_regularization_loss ar self =
     (let layer_norms = collect_layer_norms ar (net_named_parameters self) [];
          regularization_loss = op_mul ar (float_half ar) (py_sum ar layer_norms)
      in op_mul ar (self_weight_decay self) regularization_loss)"

text \<open>
  Exact arithmetic on the reals, a tensor being the list of its entries. The framework's
  arithmetic agrees with it wherever no operation rounds, as on small integers and their
  halves.
\<close>

definition exact_arithmetic :: "(real list, real) arithmetic" where
  "exact_arithmetic =
     \<lparr>op_pow2_sum = (\<lambda>parameters. sum_list (map (\<lambda>x. x ^ 2) parameters)),
      op_add = (+), op_mul = (*), int_zero = 0, float_half = 1 / 2\<rparr>"

section \<open>Float multiplication\<close>

text \<open>
  The product of two floats: the exact product rounded to binary64 (53 significant bits,
  least exponent \<open>-1074\<close>, ties to even, overflow to an infinity), with the usual rules
  for infinities and \<open>nan\<close>.
\<close>

fun bitlen :: "nat \<Rightarrow> nat" where
  "bitlen n = (if n = 0 then 0 else Suc (bitlen (n div 2)))"

declare bitlen.simps [simp del]

definition round_binary64 :: "bool \<Rightarrow> nat \<Rightarrow> int \<Rightarrow> pyfloat" where
  "round_binary64 s m e =
     (let drop_bits = max (int (bitlen m) - 53) (- 1074 - e);
          m' = (if 0 < drop_bits then round_half_even m (2 ^ nat drop_bits) else m);
          e' = (if 0 < drop_bits then e + drop_bits else e)
      in if 1024 < int (bitlen m') + e' then Infinite s else Finite s m' e')"

fun float_mul :: "pyfloat \<Rightarrow> pyfloat \<Rightarrow> pyfloat" where
  "float_mul NaN y = NaN"
| "float_mul x NaN = NaN"
| "float_mul (Infinite s) (Infinite t) = Infinite (s \<noteq> t)"
| "float_mul (Infinite s) (Finite t m e) = (if m = 0 then NaN else Infinite (s \<noteq> t))"
| "float_mul (Finite s m e) (Infinite t) = (if m = 0 then NaN else Infinite (s \<noteq> t))"
| "float_mul (Finite s m e) (Finite t n f) = round_binary64 (s \<noteq> t) (m * n) (e + f)"

section \<open>Run names: \<open>make_run_name\<close>\<close>

text \<open>
  The local time that \<open>time.strftime\<close> reads from the clock, and its rendering with the
  format \<open>"%Y-%m-%d-%H-%M-%S"\<close>: the year in decimal, the other fields with two digits.
\<close>

record struct_time =
  tm_year :: nat
  tm_mon :: nat
  tm_mday :: nat
  tm_hour :: nat
  tm_min :: nat
  tm_sec :: nat

definition pad2 :: "nat \<Rightarrow> string" where
  "pad2 n = (if n < 10 then ''0'' @ str_nat n else str_nat n)"

definition strftime :: "struct_time \<Rightarrow> string" where
  "strftime t =
     str_nat (tm_year t) @ ''-'' @ pad2 (tm_mon t) @ ''-'' @ pad2 (tm_mday t) @ ''-'' @
     pad2 (tm_hour t) @ ''-'' @ pad2 (tm_min t) @ ''-'' @ pad2 (tm_sec t)"

text \<open>
  The values an optimizer hyperparameter can take, and the text the loop writes for one:
  \<open>float2str\<close> for a float, \<open>str\<close> otherwise.
\<close>

datatype hp_value = HFloat pyfloat | HInt int | HBool bool | HStr string

definition hp_value_str :: "hp_value \<Rightarrow> error + string" where
  "hp_value_str hp_value =
     (case hp_value of
        HFloat x \<Rightarrow> float2str x
      | HInt i \<Rightarrow> Inr (str_int i)
      | HBool b \<Rightarrow> Inr (if b then ''True'' else ''False'')
      | HStr s \<Rightarrow> Inr s)"

text \<open>Sequencing of steps that can raise.\<close>

definition bind_err :: "error + 'a \<Rightarrow> ('a \<Rightarrow> error + 'b) \<Rightarrow> error + 'b" where
  "bind_err r f = (case r of Inl e \<Rightarrow> Inl e | Inr v \<Rightarrow> f v)"

text \<open>The loop over the sorted hyperparameters, appending to \<open>run_folder_name\<close>.\<close>

fun add_hyperparams :: "(string \<times> hp_value) list \<Rightarrow> string \<Rightarrow> error + string" where
  "add_hyperparams [] run_folder_name = Inr run_folder_name"
| "add_hyperparams ((hp_name, hp_value) # rest) run_folder_name =
     bind_err (hp_value_str hp_value)
       (\<lambda>v. add_hyperparams rest (run_folder_name @ hp_name @ ''__'' @ v @ ''__''))"

text \<open>The loop over \<open>zip(lr_sched_epochs, lr_sched_factors)\<close>.\<close>

fun add_schedule :: "(int \<times> pyfloat) list \<Rightarrow> pyfloat \<Rightarrow> string \<Rightarrow> error + string" where
  "add_schedule [] learning_rate run_folder_name = Inr run_folder_name"
| "add_schedule ((epoch, factor) # rest) learning_rate run_folder_name =
     bind_err (float2str (float_mul factor learning_rate))
       (\<lambda>v. add_schedule rest learning_rate (run_folder_name @ ''_'' @ str_int epoch @ ''_'' @ v))"

text \<open>
  \<open>make_run_name\<close>. The first argument is the clock reading at the call. The dictionary
  \<open>optimizer_hyperparams\<close> is the list of its items; its keys are distinct, so that
  \<open>sorted\<close> orders the items by their names. \<open>zip\<close> of a list with \<open>None\<close> raises
  \<open>TypeError\<close>.
\<close>

definition make_run_name ::
  "struct_time \<Rightarrow> pyfloat option \<Rightarrow> int \<Rightarrow> int \<Rightarrow> pyfloat \<Rightarrow> int list option \<Rightarrow>
   pyfloat list option \<Rightarrow> int \<Rightarrow> (string \<times> hp_value) list \<Rightarrow> error + (string \<times> string)" where
  "make_run_name now weight_decay batch_size num_epochs learning_rate
                 lr_sched_epochs lr_sched_factors random_seed optimizer_hyperparams =
     bind_err
       (case weight_decay of
          None \<Rightarrow> Inr (''num_epochs__'' @ str_int num_epochs @ ''__batch_size__'' @ str_int batch_size @ ''__'')
        | Some wd \<Rightarrow>
            bind_err (float2str wd)
              (\<lambda>w. Inr (''num_epochs__'' @ str_int num_epochs @ ''__batch_size__'' @ str_int batch_size @ ''__''
                        @ ''weight_decay__'' @ w @ ''__'')))
       (\<lambda>name1.
          bind_err (add_hyperparams (sort_key fst optimizer_hyperparams) name1)
            (\<lambda>name2.
               bind_err (float2str learning_rate)
                 (\<lambda>lr.
                    bind_err
                      (case lr_sched_epochs of
                         None \<Rightarrow> Inr (name2 @ ''lr__'' @ lr)
                       | Some epochs \<Rightarrow>
                           (case lr_sched_factors of
                              None \<Rightarrow> Inl TypeError
                            | Some factors \<Rightarrow>
                                add_schedule (zip epochs factors) learning_rate
                                  (name2 @ ''lr_schedule__0_'' @ lr)))
                      (\<lambda>run_folder_name.
                         Inr (run_folder_name,
                              ''random_seed__'' @ str_int random_seed @ ''__'' @ strftime now)))))"

text \<open>
  The naming convention as the specification words it, for comparison with
  \<open>make_run_name\<close>: \<open>num_epochs__<N>__batch_size__<B>__\<close>, then \<open>weight_decay__<W>__\<close>
  when a weight decay is given, then \<open><name>__<value>__\<close> for each hyperparameter of the
  list \<open>ordered\<close>, then \<open>lr__<LR>\<close> when no schedule is given and otherwise
  \<open>lr_schedule__0_<LR>\<close> followed by \<open>_<epoch>_<factor*LR>\<close> for each pair of a breakpoint
  and a factor. \<open>float_text\<close> and \<open>hp_value_text\<close> are the texts of the numbers where
  they can be serialised.
\<close>

definition isfinite :: "pyfloat \<Rightarrow> bool" where
  "isfinite x = (case x of Finite s m e \<Rightarrow> True | Infinite s \<Rightarrow> False | NaN \<Rightarrow> False)"

definition float_text :: "pyfloat \<Rightarrow> string" where
  "float_text x = (case float2str x of Inr s \<Rightarrow> s | Inl e \<Rightarrow> [])"

definition hp_value_text :: "hp_value \<Rightarrow> string" where
  "hp_value_text v = (case hp_value_str v of Inr s \<Rightarrow> s | Inl e \<Rightarrow> [])"

definition spec_run_folder_name ::
  "pyfloat option \<Rightarrow> int \<Rightarrow> int \<Rightarrow> pyfloat \<Rightarrow> int list option \<Rightarrow> pyfloat list option \<Rightarrow>
   (string \<times> hp_value) list \<Rightarrow> string" where
  "spec_run_folder_name weight_decay batch_size num_epochs learning_rate
                        lr_sched_epochs lr_sched_factors ordered =
     ''num_epochs__'' @ str_int num_epochs @ ''__batch_size__'' @ str_int batch_size @ ''__'' @
     (case weight_decay of
        None \<Rightarrow> []
      | Some wd \<Rightarrow> ''weight_decay__'' @ float_text wd @ ''__'') @
     concat (map (\<lambda>(name, v). name @ ''__'' @ hp_value_text v @ ''__'') ordered) @
     (case lr_sched_epochs of
        None \<Rightarrow> ''lr__'' @ float_text learning_rate
      | Some epochs \<Rightarrow>
          ''lr_schedule__0_'' @ float_text learning_rate @
          concat (map (\<lambda>(epoch, factor).
                         ''_'' @ str_int epoch @ ''_'' @ float_text (float_mul factor learning_rate))
                   (zip epochs (case lr_sched_factors of None \<Rightarrow> [] | Some factors \<Rightarrow> factors))))"

section \<open>Argument resolution: \<open>get_arguments\<close>\<close>

text \<open>The values that configuration parameters take.\<close>

datatype pyval = NoneV | BoolV bool | IntV int | FloatV pyfloat | StrV string | ListV "pyval list"

subsection \<open>The command-line parser\<close>

text \<open>
  The parser of the standard library, as far as \<open>get_arguments\<close> uses it. An action
  records what \<open>add_argument\<close> was given: the option strings (none for a positional
  argument), the destination, whether the argument is required, and the default (no
  default at all for the help action, whose destination never enters the result).

  Of the \<open>type\<close> function of an argument the parser makes two uses: it converts the text
  of a value given on the command line, and, when the argument is not given, a default
  that is a string. The command line of this model holds the values converted (see
  below), so that an action records the second use only: \<open>converted_default\<close> is what the
  type function returns for the default when the default is a string, and \<open>None\<close> when
  the function raises there. It is read for no other default.
\<close>

datatype action_kind = Store | StoreConst pyval | Help

record action =
  option_strings :: "string list"
  dest :: string
  action_kind :: action_kind
  required :: bool
  default_value :: "pyval option"
  converted_default :: "pyval option"

type_synonym parser = "action list"

text \<open>A new parser has the help action.\<close>

definition ArgumentParser :: parser where
  "ArgumentParser =
     [\<lparr>option_strings = [''-h'', ''--help''], dest = ''help'', action_kind = Help,
       required = False, default_value = None, converted_default = None\<rparr>]"

text \<open>
  The destination derived from an option string: the leading dashes are stripped and the
  remaining dashes become underscores.
\<close>

definition flag_dest :: "string \<Rightarrow> string" where
  "flag_dest option_string =
     map (\<lambda>ch. if ch = CHR ''-'' then CHR ''_'' else ch)
       (dropWhile (\<lambda>ch. ch = CHR ''-'') option_string)"

text \<open>
  \<open>add_argument\<close> raises \<open>ArgumentError\<close> when one of the option strings is already
  registered.
\<close>

definition add_argument :: "parser \<Rightarrow> action \<Rightarrow> error + parser" where
  "add_argument parser act =
     (if \<exists>a \<in> set parser. \<exists>s \<in> set (option_strings act). s \<in> set (option_strings a)
      then Inl ArgumentError
      else Inr (parser @ [act]))"

text \<open>
  The command line, after the parser has split it: the positional values in order, and
  for each option given the option string it resolves to with its converted value
  (ignored by an action that stores a constant). Abbreviated option strings and the
  conversion of the text of a value are not modelled.
\<close>

record command_line =
  positionals :: "pyval list"
  options :: "(string \<times> pyval) list"

definition find_action :: "parser \<Rightarrow> string \<Rightarrow> action option" where
  "find_action parser flag = find (\<lambda>a. flag \<in> set (option_strings a)) parser"

text \<open>The defaults: of two actions with one destination, the first registered sets it.\<close>

definition initial_namespace :: "parser \<Rightarrow> (string \<rightharpoonup> pyval)" where
  "initial_namespace parser =
     map_of (List.map_filter (\<lambda>a. map_option (\<lambda>d. (dest a, d)) (default_value a)) parser)"

fun store_positionals :: "(action \<times> pyval) list \<Rightarrow> (string \<rightharpoonup> pyval) \<Rightarrow> (string \<rightharpoonup> pyval)" where
  "store_positionals [] ns = ns"
| "store_positionals ((a, v) # rest) ns = store_positionals rest (ns(dest a \<mapsto> v))"

fun store_options :: "parser \<Rightarrow> (string \<times> pyval) list \<Rightarrow> (string \<rightharpoonup> pyval) \<Rightarrow> (string \<rightharpoonup> pyval)" where
  "store_options parser [] ns = ns"
| "store_options parser ((flag, v) # rest) ns =
     (case find_action parser flag of
        None \<Rightarrow> store_options parser rest ns
      | Some a \<Rightarrow>
          (case action_kind a of
             Store \<Rightarrow> store_options parser rest (ns(dest a \<mapsto> v))
           | StoreConst c \<Rightarrow> store_options parser rest (ns(dest a \<mapsto> c))
           | Help \<Rightarrow> store_options parser rest ns))"

text \<open>The namespace once the command line is consumed: the defaults, overwritten by what is given.\<close>

definition consumed :: "parser \<Rightarrow> command_line \<Rightarrow> (string \<rightharpoonup> pyval)" where
  "consumed parser argv =
     store_options parser (options argv)
       (store_positionals (zip (filter (\<lambda>b. option_strings b = []) parser) (positionals argv))
          (initial_namespace parser))"

text \<open>Whether the command line gives an argument.\<close>

definition seen :: "parser \<Rightarrow> command_line \<Rightarrow> action \<Rightarrow> bool" where
  "seen parser argv a =
     (if option_strings a = []
      then a \<in> set (take (length (positionals argv)) (filter (\<lambda>b. option_strings b = []) parser))
      else \<exists>flag \<in> set (map fst (options argv)). flag \<in> set (option_strings a))"

text \<open>
  The loop over the actions that follows the consumption of the command line: for an
  argument that is neither given nor required, a default that is a string and still is
  the value of the destination is replaced by its conversion with the type function; when
  the function raises, the parser ends the process with a usage error. The parser tests whether the value of the
  destination is the default object itself; the model compares the values, which can
  differ from that test only where two actions share a destination.
\<close>

definition default_in_place :: "action \<Rightarrow> (string \<rightharpoonup> pyval) \<Rightarrow> bool" where
  "default_in_place a ns =
     (case default_value a of
        Some (StrV text) \<Rightarrow> ns (dest a) = Some (StrV text)
      | _ \<Rightarrow> False)"

fun convert_defaults ::
  "(action \<Rightarrow> bool) \<Rightarrow> action list \<Rightarrow> (string \<rightharpoonup> pyval) \<Rightarrow> error + (string \<rightharpoonup> pyval)" where
  "convert_defaults given [] ns = Inr ns"
| "convert_defaults given (a # rest) ns =
     (if \<not> given a \<and> \<not> required a \<and> default_in_place a ns
      then (case converted_default a of
              None \<Rightarrow> Inl (UsageError InvalidValue)
            | Some v \<Rightarrow> convert_defaults given rest (ns(dest a \<mapsto> v)))
      else convert_defaults given rest ns)"

text \<open>
  \<open>parse_args\<close>: the help action prints the help and ends the process; a default that
  cannot be converted, then a required argument that is not given, and then an argument
  that no action takes, end it with a usage error; otherwise the result holds the
  defaults, overwritten by what is given.
\<close>

definition parse_args :: "parser \<Rightarrow> command_line \<Rightarrow> error + (string \<rightharpoonup> pyval)" where
  "parse_args parser argv =
     (if \<exists>flag \<in> set (map fst (options argv)).
           \<exists>a \<in> set parser. flag \<in> set (option_strings a) \<and> action_kind a = Help
      then Inl HelpExit
      else
        (case convert_defaults (seen parser argv) parser (consumed parser argv) of
           Inl e \<Rightarrow> Inl e
         | Inr namespace \<Rightarrow>
             if \<exists>a \<in> set parser. required a \<and> \<not> seen parser argv a
             then Inl (UsageError MissingRequired)
             else if length (filter (\<lambda>b. option_strings b = []) parser) < length (positionals argv)
                     \<or> (\<exists>flag \<in> set (map fst (options argv)). find_action parser flag = None)
             then Inl (UsageError Unrecognized)
             else Inr namespace))"

subsection \<open>The resolver\<close>

text \<open>
  A hyperparameter descriptor: a dictionary with the keys \<open>name\<close> and \<open>type\<close> and
  possibly \<open>default\<close>. The type is a callable that the parser applies to a text; the model
  takes what it returns for a text, \<open>None\<close> when it raises (\<open>ValueError\<close>, \<open>TypeError\<close>
  or the parser's \<open>ArgumentTypeError\<close>, which the parser reports as a usage error).
\<close>

record hp_descriptor =
  hp_name :: string
  hp_type :: "string \<Rightarrow> pyval option"
  hp_default :: "pyval option"

text \<open>
  The arguments of a call. \<open>optimizer_hyperparams\<close> is the dictionary of the further
  keyword arguments; the language binds a keyword that names a parameter to that
  parameter, so that the dictionary never has a parameter's name as a key.
\<close>

record arguments =
  hyperparams :: "hp_descriptor list"
  testproblem :: pyval
  weight_decay :: pyval
  batch_size :: pyval
  num_epochs :: pyval
  learning_rate :: pyval
  lr_sched_epochs :: pyval
  lr_sched_factors :: pyval
  random_seed :: pyval
  data_dir :: pyval
  output_dir :: pyval
  train_log_interval :: pyval
  print_train_iter :: pyval
  no_logs :: pyval
  optimizer_hyperparams :: "string \<rightharpoonup> pyval"

text \<open>
  The thirteen blocks \<open>if x is None: parser.add_argument(...) else: args["x"] = x\<close>, in
  the order of the source: the key, the value passed, and the argument registered when
  none is passed. The only default that is a string is the one of \<open>output_dir\<close>, whose
  type \<open>str\<close> returns it unchanged.
\<close>

definition builtin_arguments :: "arguments \<Rightarrow> (string \<times> pyval \<times> action) list" where
  "builtin_arguments c =
     [(''testproblem'', testproblem c,
         \<lparr>option_strings = [], dest = ''testproblem'', action_kind = Store,
          required = True, default_value = Some NoneV, converted_default = None\<rparr>),
      (''weight_decay'', weight_decay c,
         \<lparr>option_strings = [''--weight_decay'', ''--wd''], dest = ''weight_decay'', action_kind = Store,
          required = False, default_value = Some NoneV, converted_default = None\<rparr>),
      (''batch_size'', batch_size c,
         \<lparr>option_strings = [''--batch_size'', ''--bs''], dest = ''batch_size'', action_kind = Store,
          required = True, default_value = Some NoneV, converted_default = None\<rparr>),
      (''num_epochs'', num_epochs c,
         \<lparr>option_strings = [''-N'', ''--num_epochs''], dest = ''num_epochs'', action_kind = Store,
          required = True, default_value = Some NoneV, converted_default = None\<rparr>),
      (''learning_rate'', learning_rate c,
         \<lparr>option_strings = [''--learning_rate'', ''--lr''], dest = ''learning_rate'', action_kind = Store,
          required = True, default_value = Some NoneV, converted_default = None\<rparr>),
      (''lr_sched_epochs'', lr_sched_epochs c,
         \<lparr>option_strings = [''--lr_sched_epochs''], dest = ''lr_sched_epochs'', action_kind = Store,
          required = False, default_value = Some NoneV, converted_default = None\<rparr>),
      (''lr_sched_factors'', lr_sched_factors c,
         \<lparr>option_strings = [''--lr_sched_factors''], dest = ''lr_sched_factors'', action_kind = Store,
          required = False, default_value = Some NoneV, converted_default = None\<rparr>),
      (''random_seed'', random_seed c,
         \<lparr>option_strings = [''-r'', ''--random_seed''], dest = ''random_seed'', action_kind = Store,
          required = False, default_value = Some (IntV 42), converted_default = None\<rparr>),
      (''data_dir'', data_dir c,
         \<lparr>option_strings = [''--data_dir''], dest = ''data_dir'', action_kind = Store,
          required = False, default_value = Some NoneV, converted_default = None\<rparr>),
      (''output_dir'', output_dir c,
         \<lparr>option_strings = [''--output_dir''], dest = ''output_dir'', action_kind = Store,
          required = False, default_value = Some (StrV ''results''),
          converted_default = Some (StrV ''results'')\<rparr>),
      (''train_log_interval'', train_log_interval c,
         \<lparr>option_strings = [''--train_log_interval''], dest = ''train_log_interval'', action_kind = Store,
          required = False, default_value = Some (IntV 10), converted_default = None\<rparr>),
      (''print_train_iter'', print_train_iter c,
         \<lparr>option_strings = [''--print_train_iter''], dest = ''print_train_iter'',
          action_kind = StoreConst (BoolV True), required = False, default_value = Some (BoolV False), converted_default = None\<rparr>),
      (''no_logs'', no_logs c,
         \<lparr>option_strings = [''--no_logs''], dest = ''no_logs'',
          action_kind = StoreConst (BoolV True), required = False, default_value = Some (BoolV False), converted_default = None\<rparr>)]"

fun collect_arguments ::
  "(string \<times> pyval \<times> action) list \<Rightarrow> (string \<rightharpoonup> pyval) \<times> parser \<Rightarrow>
   error + ((string \<rightharpoonup> pyval) \<times> parser)" where
  "collect_arguments [] st = Inr st"
| "collect_arguments ((name, v, act) # rest) (args, parser) =
     (if v = NoneV
      then bind_err (add_argument parser act) (\<lambda>parser'. collect_arguments rest (args, parser'))
      else collect_arguments rest (args(name \<mapsto> v), parser))"

text \<open>
  The argument registered for a hyperparameter that the caller does not pass: the flag
  \<open>--<name>\<close>, with the descriptor's type and default, or required when it has no
  default. Registering raises \<open>ValueError\<close> when no destination can be derived from the
  flag.
\<close>

definition hp_action :: "hp_descriptor \<Rightarrow> action" where
  "hp_action hp =
     \<lparr>option_strings = [''--'' @ hp_name hp], dest = flag_dest (''--'' @ hp_name hp),
      action_kind = Store, required = (hp_default hp = None),
      default_value = Some (case hp_default hp of None \<Rightarrow> NoneV | Some d \<Rightarrow> d),
      converted_default = (case hp_default hp of Some (StrV text) \<Rightarrow> hp_type hp text | _ \<Rightarrow> None)\<rparr>"

fun collect_hyperparams ::
  "hp_descriptor list \<Rightarrow> (string \<rightharpoonup> pyval) \<Rightarrow> (string \<rightharpoonup> pyval) \<times> parser \<Rightarrow>
   error + ((string \<rightharpoonup> pyval) \<times> parser)" where
  "collect_hyperparams [] kw st = Inr st"
| "collect_hyperparams (hp # rest) kw (args, parser) =
     (case kw (hp_name hp) of
        Some v \<Rightarrow> collect_hyperparams rest kw (args(hp_name hp \<mapsto> v), parser)
      | None \<Rightarrow>
          if flag_dest (''--'' @ hp_name hp) = [] then Inl ValueError
          else bind_err (add_argument parser (hp_action hp))
                 (\<lambda>parser'. collect_hyperparams rest kw (args, parser')))"

text \<open>
  \<open>get_arguments\<close>: collect what is passed, register the rest, parse the command line
  and let \<open>args.update\<close> write the parsed values over the collected ones.
\<close>

definition get_arguments :: "arguments \<Rightarrow> command_line \<Rightarrow> error + (string \<rightharpoonup> pyval)" where
  "get_arguments c argv =
     bind_err (collect_arguments (builtin_arguments c) (Map.empty, ArgumentParser))
       (\<lambda>st. bind_err (collect_hyperparams (hyperparams c) (optimizer_hyperparams c) st)
          (\<lambda>(args, parser).
             bind_err (parse_args parser argv)
               (\<lambda>cmdline_args. Inr (args ++ cmdline_args))))"

subsection \<open>Notions for stating the properties of the resolver\<close>

text \<open>
  Of a list of blocks: the arguments registered (for the values that are \<open>None\<close>) and
  the keys collected (for the others). Of the hyperparameter descriptors: those the
  caller does not pass. \<open>final_parser\<close> is the parser at the call of \<open>parse_args\<close>, and
  \<open>hp_registrable\<close> says that registering the hyperparameter flags raises nothing: each
  yields a destination, and no flag is registered twice.
\<close>

definition registered_of :: "(string \<times> pyval \<times> action) list \<Rightarrow> action list" where
  "registered_of T = map (\<lambda>t. snd (snd t)) (filter (\<lambda>t. fst (snd t) = NoneV) T)"

definition passed_of :: "(string \<times> pyval \<times> action) list \<Rightarrow> string set" where
  "passed_of T = fst ` {t \<in> set T. fst (snd t) \<noteq> NoneV}"

definition unsupplied :: "(string \<rightharpoonup> pyval) \<Rightarrow> hp_descriptor list \<Rightarrow> hp_descriptor list" where
  "unsupplied kw hps = filter (\<lambda>h. kw (hp_name h) = None) hps"

definition final_parser :: "arguments \<Rightarrow> parser" where
  "final_parser c =
     ArgumentParser @ registered_of (builtin_arguments c) @
     map hp_action (unsupplied (optimizer_hyperparams c) (hyperparams c))"

definition hp_registrable :: "arguments \<Rightarrow> bool" where
  "hp_registrable c =
     ((\<forall>h \<in> set (unsupplied (optimizer_hyperparams c) (hyperparams c)). flag_dest (''--'' @ hp_name h) \<noteq> []) \<and>
      distinct (map hp_name (unsupplied (optimizer_hyperparams c) (hyperparams c))) \<and>
      (\<forall>h \<in> set (unsupplied (optimizer_hyperparams c) (hyperparams c)).
         ''--'' @ hp_name h \<notin> set (concat (map option_strings (ArgumentParser @ registered_of (builtin_arguments c))))))"

text \<open>
  \<open>missing_required\<close>: a required value is neither passed by the caller nor given on the
  command line. Required are the test problem (the positional argument), the batch size,
  the number of epochs, the learning rate, and each hyperparameter whose descriptor has no
  default. \<open>defaults_convert\<close>: the type of each hyperparameter that the caller does not
  pass accepts its default, when that is a string. \<open>acceptable\<close>: the command line has no
  positional value beyond the test problem, and each of its options belongs to a
  registered argument other than help.
\<close>

definition missing_required :: "arguments \<Rightarrow> command_line \<Rightarrow> bool" where
  "missing_required c argv =
     ((testproblem c = NoneV \<and> positionals argv = []) \<or>
      (batch_size c = NoneV \<and> ''--batch_size'' \<notin> fst ` set (options argv)
         \<and> ''--bs'' \<notin> fst ` set (options argv)) \<or>
      (num_epochs c = NoneV \<and> ''-N'' \<notin> fst ` set (options argv)
         \<and> ''--num_epochs'' \<notin> fst ` set (options argv)) \<or>
      (learning_rate c = NoneV \<and> ''--learning_rate'' \<notin> fst ` set (options argv)
         \<and> ''--lr'' \<notin> fst ` set (options argv)) \<or>
      (\<exists>h \<in> set (unsupplied (optimizer_hyperparams c) (hyperparams c)).
         hp_default h = None \<and> ''--'' @ hp_name h \<notin> fst ` set (options argv)))"

definition defaults_convert :: "arguments \<Rightarrow> bool" where
  "defaults_convert c =
     (\<forall>h \<in> set (unsupplied (optimizer_hyperparams c) (hyperparams c)).
        case hp_default h of
          Some (StrV text) \<Rightarrow> hp_type h text \<noteq> None
        | _ \<Rightarrow> True)"

definition acceptable :: "arguments \<Rightarrow> command_line \<Rightarrow> bool" where
  "acceptable c argv =
     (length (positionals argv) \<le> (if testproblem c = NoneV then 1 else 0) \<and>
      (\<forall>flag \<in> fst ` set (options argv).
         \<exists>a \<in> set (final_parser c). action_kind a \<noteq> Help \<and> flag \<in> set (option_strings a)))"

subsection \<open>Example calls\<close>

text \<open>
  Type functions for the examples. \<open>py_str\<close> and \<open>py_bool\<close> are the language's \<open>str\<close>
  and \<open>bool\<close> on a text: the text itself, and whether it is not empty. \<open>digits_type\<close>
  reads a text of decimal digits as the integer it writes, as the language's \<open>int\<close>
  does, and raises \<open>ValueError\<close> on every other text.
\<close>

definition py_str :: "string \<Rightarrow> pyval option" where
  "py_str text = Some (StrV text)"

definition py_bool :: "string \<Rightarrow> pyval option" where
  "py_bool text = Some (BoolV (text \<noteq> []))"

definition digits_type :: "string \<Rightarrow> pyval option" where
  "digits_type text =
     (if text \<noteq> [] \<and> list_all (\<lambda>ch. ch \<in> set ''0123456789'') text
      then Some (IntV (foldl (\<lambda>n ch. 10 * n + (of_char ch - 48)) 0 text))
      else None)"

text \<open>
  A call that passes the batch size, the learning rate and the hyperparameter
  \<open>momentum\<close>, with a second hyperparameter \<open>nesterov\<close> that has a default; and a
  command line \<open>cifar10_vgg16 -N 10\<close>.
\<close>

definition example_call :: arguments where
  "example_call =
     \<lparr>hyperparams =
        [\<lparr>hp_name = ''momentum'', hp_type = py_str, hp_default = None\<rparr>,
         \<lparr>hp_name = ''nesterov'', hp_type = py_bool, hp_default = Some (BoolV False)\<rparr>],
      testproblem = NoneV, weight_decay = NoneV, batch_size = IntV 128, num_epochs = NoneV,
      learning_rate = FloatV (Finite False 1 (- 1)), lr_sched_epochs = NoneV,
      lr_sched_factors = NoneV, random_seed = NoneV, data_dir = NoneV, output_dir = NoneV,
      train_log_interval = NoneV, print_train_iter = NoneV, no_logs = NoneV,
      optimizer_hyperparams = [''momentum'' \<mapsto> FloatV (Finite False 1 (- 1))]\<rparr>"

definition example_command_line :: command_line where
  "example_command_line = \<lparr>positionals = [StrV ''cifar10_vgg16''], options = [(''-N'', IntV 10)]\<rparr>"


section \<open>Properties of the learning-rate schedule\<close>

lemma argmax_from_increasing:
  "sorted_wrt (<) xs \<Longrightarrow> \<forall>x\<in>set xs. best < x \<Longrightarrow>
   argmax_from best_pos best pos xs = (if xs = [] then best_pos else pos + length xs - 1)"
proof (induction xs arbitrary: best_pos best pos)
  case Nil
  then show ?case by simp
next
  case (Cons x xs)
  have "argmax_from best_pos best pos (x # xs) = argmax_from pos x (Suc pos) xs"
    using Cons.prems by simp
  also have "\<dots> = (if xs = [] then pos else Suc pos + length xs - 1)"
    using Cons.prems by (intro Cons.IH) auto
  finally show ?case by auto
qed

lemma np_argmax_increasing:
  "sorted_wrt (<) a \<Longrightarrow> a \<noteq> [] \<Longrightarrow> np_argmax a = Inr (length a - 1)"
  by (cases a) (auto simp: np_argmax_def argmax_from_increasing)

lemma np_where_le_increasing: "sorted_wrt (<) (np_where_le es epoch)"
  unfolding np_where_le_def by (intro sorted_wrt_filter) (simp add: sorted_wrt_upt)

lemma length_np_where_le:
  "length (np_where_le es epoch) = length (filter (\<lambda>b. b \<le> epoch) es)"
proof -
  have "map ((!) es) (np_where_le es epoch) = filter (\<lambda>b. b \<le> epoch) (map ((!) es) [0..<length es])"
    unfolding np_where_le_def by (simp add: filter_map comp_def)
  then have "length (map ((!) es) (np_where_le es epoch)) = length (filter (\<lambda>b. b \<le> epoch) es)"
    by (simp add: map_nth)
  then show ?thesis by simp
qed

lemma filter_le_ascending:
  "sorted_wrt (<) es \<Longrightarrow> filter (\<lambda>b. b \<le> epoch) es = take (length (filter (\<lambda>b. b \<le> epoch) es)) (es::int list)"
proof (induction es)
  case Nil
  then show ?case by simp
next
  case (Cons a es)
  show ?case
  proof (cases "a \<le> epoch")
    case True
    then show ?thesis using Cons by simp
  next
    case False
    then have "\<forall>b\<in>set es. \<not> b \<le> epoch" using Cons.prems by fastforce
    then have "filter (\<lambda>b. b \<le> epoch) es = []" by simp
    then show ?thesis using False by simp
  qed
qed


lemma determine_lr_index:
  assumes "first \<le> epoch"
  shows "determine_lr (first # rest) fs epoch =
     (let k = length (filter (\<lambda>b. b \<le> epoch) (first # rest))
      in if k - 1 < length fs then Inr (fs ! (k - 1)) else Inl IndexError)"
proof -
  let ?es = "first # rest"
  have "0 \<in> set (np_where_le ?es epoch)"
    using assms by (simp add: np_where_le_def)
  then have ne: "np_where_le ?es epoch \<noteq> []" by auto
  have "np_argmax (np_where_le ?es epoch) = Inr (length (np_where_le ?es epoch) - 1)"
    using np_argmax_increasing [OF np_where_le_increasing ne] .
  then show ?thesis
    using assms by (simp add: determine_lr_def length_np_where_le Let_def)
qed

lemma largest_breakpoint:
  fixes es :: "int list"
  assumes asc: "sorted_wrt (<) es" and k: "k = length (filter (\<lambda>b. b \<le> epoch) es)" and pos: "0 < k"
  shows "k - 1 < length es \<and> es ! (k - 1) \<le> epoch \<and>
         (\<forall>j<length es. es ! j \<le> epoch \<longrightarrow> es ! j \<le> es ! (k - 1))"
proof -
  have tk: "filter (\<lambda>b. b \<le> epoch) es = take k es"
    using filter_le_ascending [OF asc] k by simp
  have kle: "k \<le> length es" using k by simp
  then have i: "k - 1 < length es" using pos by simp
  have "es ! (k - 1) = take k es ! (k - 1)" using pos by simp
  also have "\<dots> \<in> set (take k es)" using pos kle by (intro nth_mem) simp
  finally have "es ! (k - 1) \<in> set (filter (\<lambda>b. b \<le> epoch) es)" using tk by simp
  then have le: "es ! (k - 1) \<le> epoch" by simp
  have dist: "distinct es" using asc by (simp add: strict_sorted_iff)
  have srt: "sorted es" using asc by (simp add: strict_sorted_iff)
  have "es ! j \<le> es ! (k - 1)" if j: "j < length es" and jle: "es ! j \<le> epoch" for j
  proof -
    have "es ! j \<in> set (take k es)" using j jle tk [symmetric] by simp
    then obtain j' where j': "j' < k" "es ! j' = es ! j"
      using kle by (auto simp: in_set_conv_nth)
    then have "j' = j" using dist j kle by (simp add: nth_eq_iff_index_eq)
    then have "j \<le> k - 1" using j' by simp
    then show ?thesis using srt i by (simp add: sorted_nth_mono)
  qed
  then show ?thesis using i le by blast
qed


lemma determine_lr_range:
  "determine_lr es fs epoch \<in> insert (Inl IndexError) (insert (Inr 1) (Inr ` set fs))"
proof (cases es)
  case Nil
  then show ?thesis by (simp add: determine_lr_def)
next
  case (Cons first rest)
  show ?thesis
  proof (cases "epoch < first")
    case True
    then show ?thesis using Cons by (simp add: determine_lr_def)
  next
    case False
    then have "first \<le> epoch" by simp
    from determine_lr_index [OF this, of rest fs] show ?thesis
      unfolding Cons by (auto simp: Let_def)
  qed
qed

text \<open>
  What the constructor's evaluation at epoch 0 decides: the scan succeeds there when the
  breakpoint list has a first entry and either that entry is positive, or the factor list
  is long enough for the number of breakpoints that are at most 0.
\<close>

lemma determine_lr_at_zero:
  "(\<exists>m. determine_lr es fs 0 = Inr m) \<and>
     es \<noteq> [] \<and> (0 < hd es \<or> length (filter (\<lambda>b. b \<le> 0) es) \<le> length fs)
   \<or> determine_lr es fs 0 = Inl IndexError \<and>
     \<not> (es \<noteq> [] \<and> (0 < hd es \<or> length (filter (\<lambda>b. b \<le> 0) es) \<le> length fs))"
proof (cases es)
  case Nil
  then show ?thesis by (simp add: determine_lr_def)
next
  case (Cons first rest)
  show ?thesis
  proof (cases "0 < first")
    case True
    then show ?thesis using Cons by (simp add: determine_lr_def)
  next
    case False
    then have le: "first \<le> 0" by simp
    from determine_lr_index [OF le, of rest fs]
    have "determine_lr (first # rest) fs 0 =
        (if length (filter (\<lambda>b. b \<le> 0) rest) < length fs
         then Inr (fs ! length (filter (\<lambda>b. b \<le> 0) rest)) else Inl IndexError)"
      using le by (simp add: Let_def)
    then show ?thesis unfolding Cons using le by auto
  qed
qed

lemma make_lr_schedule_both:
  "make_lr_schedule opt (Some es) (Some fs) =
     (if es \<noteq> [] \<and> (0 < hd es \<or> length (filter (\<lambda>b. b \<le> 0) es) \<le> length fs)
      then Inr \<lparr>sched_optimizer = opt, lr_lambda = determine_lr es fs\<rparr>
      else Inl IndexError)"
  using determine_lr_at_zero [of es fs]
  by (auto simp: make_lr_schedule_def LambdaLR_def)

lemma make_lr_schedule_equal_lengths:
  assumes "length fs = length (first # rest)"
  shows "make_lr_schedule opt (Some (first # rest)) (Some fs)
         = Inr \<lparr>sched_optimizer = opt, lr_lambda = determine_lr (first # rest) fs\<rparr>"
proof -
  have "length (filter (\<lambda>b. b \<le> 0) (first # rest)) \<le> length (first # rest)"
    by (rule length_filter_le)
  then show ?thesis unfolding make_lr_schedule_both using assms by simp
qed

text \<open>
  Claim C1. For every optimizer (base learning rate), every strictly ascending list of
  breakpoints with a first breakpoint and every factor list of the same length,
  \<open>make_lr_schedule\<close> returns a scheduler, and the multiplier function of that scheduler
  returns 1 for an epoch below the first breakpoint, and otherwise the factor at the
  position of the largest breakpoint that is at most the epoch. For the breakpoints 50,
  100 and the factors 0.1, 0.01 it returns 1 below epoch 50, 0.1 for the epochs 50 to 99
  and 0.01 from epoch 100 on.
\<close>

theorem make_lr_schedule_piecewise:
  "(sorted_wrt (<) (first # rest) \<and> length factors = length (first # rest) \<longrightarrow>
      (\<exists>sched. make_lr_schedule opt (Some (first # rest)) (Some factors) = Inr sched \<and>
         (epoch < first \<longrightarrow> lr_lambda sched epoch = Inr 1) \<and>
         (first \<le> epoch \<longrightarrow>
            (\<exists>i<length (first # rest).
               (first # rest) ! i \<le> epoch \<and>
               (\<forall>j<length (first # rest).
                  (first # rest) ! j \<le> epoch \<longrightarrow> (first # rest) ! j \<le> (first # rest) ! i) \<and>
               lr_lambda sched epoch = Inr (factors ! i))))) \<and>
   (\<exists>sched. make_lr_schedule opt (Some [50, 100]) (Some [0.1, 0.01]) = Inr sched \<and>
      lr_lambda sched e = Inr (if e < 50 then 1 else if e < 100 then 0.1 else 0.01))"
proof -
  let ?es = "first # rest"
  let ?f = "determine_lr ?es factors"
  have before: "?f epoch = Inr 1" if "epoch < first"
    using that by (simp add: determine_lr_def)
  have after: "\<exists>i<length ?es. ?es ! i \<le> epoch \<and>
      (\<forall>j<length ?es. ?es ! j \<le> epoch \<longrightarrow> ?es ! j \<le> ?es ! i) \<and> ?f epoch = Inr (factors ! i)"
    if asc: "sorted_wrt (<) ?es" and len: "length factors = length ?es" and ge: "first \<le> epoch"
  proof -
    define k where "k = length (filter (\<lambda>b. b \<le> epoch) ?es)"
    have pos: "0 < k" using ge by (simp add: k_def)
    note lb = largest_breakpoint [OF asc k_def pos]
    have "?f epoch = Inr (factors ! (k - 1))"
      using determine_lr_index [OF ge, of rest factors] lb len
      by (simp add: Let_def k_def)
    then show ?thesis using lb by blast
  qed
  have general: "\<exists>sched. make_lr_schedule opt (Some ?es) (Some factors) = Inr sched \<and>
         (epoch < first \<longrightarrow> lr_lambda sched epoch = Inr 1) \<and>
         (first \<le> epoch \<longrightarrow>
            (\<exists>i<length ?es. ?es ! i \<le> epoch \<and>
               (\<forall>j<length ?es. ?es ! j \<le> epoch \<longrightarrow> ?es ! j \<le> ?es ! i) \<and>
               lr_lambda sched epoch = Inr (factors ! i)))"
    if asc: "sorted_wrt (<) ?es" and len: "length factors = length ?es"
  proof -
    let ?s = "\<lparr>sched_optimizer = opt, lr_lambda = ?f\<rparr>"
    have "make_lr_schedule opt (Some ?es) (Some factors) = Inr ?s"
      using len by (rule make_lr_schedule_equal_lengths)
    moreover have "lr_lambda ?s = ?f" by simp
    ultimately show ?thesis using before after [OF asc len] by metis
  qed
  have val: "determine_lr [50, 100] [0.1, 0.01] e
     = Inr (if e < 50 then 1 else if e < 100 then 0.1 else 0.01)"
  proof (cases "e < 50")
    case True
    then show ?thesis by (simp add: determine_lr_def)
  next
    case False
    then show ?thesis
      using determine_lr_index [of 50 e "[100]" "[0.1, 0.01]"] by simp
  qed
  have ex: "\<exists>sched. make_lr_schedule opt (Some [50, 100]) (Some [0.1, 0.01]) = Inr sched \<and>
      lr_lambda sched e = Inr (if e < 50 then 1 else if e < 100 then 0.1 else 0.01)"
  proof -
    have "make_lr_schedule opt (Some [50, 100]) (Some [0.1, 0.01])
        = Inr \<lparr>sched_optimizer = opt, lr_lambda = determine_lr [50, 100] [0.1, 0.01]\<rparr>"
      by (rule make_lr_schedule_equal_lengths) simp
    then show ?thesis using val by simp
  qed
  show ?thesis using general ex by blast
qed

theorem make_lr_schedule_piecewise_witness:
  "sorted_wrt (<) [50, 100 :: int] \<and> length [0.1, 0.01 :: real] = length [50, 100 :: int] \<and>
   (50 :: int) \<le> 70 \<and>
   (\<exists>sched. make_lr_schedule () (Some [50, 100]) (Some [0.1, 0.01]) = Inr sched \<and>
      (\<exists>i<length [50, 100 :: int]. [50, 100 :: int] ! i \<le> 70 \<and>
         (\<forall>j<length [50, 100 :: int]. [50, 100 :: int] ! j \<le> 70 \<longrightarrow> [50, 100 :: int] ! j \<le> [50, 100] ! i) \<and>
         lr_lambda sched 70 = Inr ([0.1, 0.01] ! i)))"
  using make_lr_schedule_piecewise
    [where first = 50 and rest = "[100]" and factors = "[0.1, 0.01]" and epoch = 70
       and opt = "()" and e = 0]
  by simp

text \<open>
  Claim C9. When the breakpoint list or the factor list is \<open>None\<close>, \<open>make_lr_schedule\<close>
  returns a scheduler whose multiplier function returns 1 for every epoch.
\<close>

theorem make_lr_schedule_constant:
  "epochs = None \<or> factors = None \<Longrightarrow>
   \<exists>sched. make_lr_schedule opt epochs factors = Inr sched \<and> lr_lambda sched epoch = Inr 1"
  by (auto simp: make_lr_schedule_def LambdaLR_def split: option.splits)

theorem make_lr_schedule_constant_witness:
  "((None :: int list option) = None \<or> Some [0.1 :: real] = None) \<and>
   (\<exists>sched. make_lr_schedule () None (Some [0.1]) = Inr sched \<and> lr_lambda sched 7 = Inr 1)"
  using make_lr_schedule_constant [where epochs = None and factors = "Some [0.1]" and opt = "()" and epoch = 7]
  by simp

text \<open>
  Claim C6, as amended. \<open>make_lr_schedule\<close> validates nothing itself. Building the
  scheduler fails only where the scan fails at epoch 0, with the \<open>IndexError\<close> of a list
  read: for an empty breakpoint list, and for a first breakpoint that is not positive
  together with a factor list shorter than the number of breakpoints that are at most 0.
  For all other lists, malformed ones included, it returns a scheduler around the scan,
  whose only outcomes are the multiplier 1, one of the given factors, or \<open>IndexError\<close>. On
  malformed lists the scan yields a wrong multiplier or an undefined one: with the
  non-ascending breakpoints 50, 100, 60 the epoch 70 gets the factor of breakpoint 100
  although 60 is the largest breakpoint reached; with fewer factors than breakpoints the
  read of the factor list fails at epoch 100.
\<close>

theorem make_lr_schedule_unvalidated:
  "make_lr_schedule opt (Some es) (Some fs) =
     (if es \<noteq> [] \<and> (0 < hd es \<or> length (filter (\<lambda>b. b \<le> 0) es) \<le> length fs)
      then Inr \<lparr>sched_optimizer = opt, lr_lambda = determine_lr es fs\<rparr>
      else Inl IndexError) \<and>
   determine_lr es fs epoch \<in> insert (Inl IndexError) (insert (Inr 1) (Inr ` set fs)) \<and>
   (\<exists>sched. make_lr_schedule opt (Some [50, 100, 60]) (Some [0.1, 0.01, 0.001]) = Inr sched \<and>
      lr_lambda sched 70 = Inr 0.01) \<and>
   (\<exists>sched. make_lr_schedule opt (Some [50, 100]) (Some [0.1]) = Inr sched \<and>
      lr_lambda sched 100 = Inl IndexError)"
proof -
  have a: "determine_lr [50, 100, 60] [0.1, 0.01, 0.001] 70 = Inr 0.01"
    using determine_lr_index [of 50 70 "[100, 60]" "[0.1, 0.01, 0.001]"] by simp
  have b: "determine_lr [50, 100] [0.1] 100 = Inl IndexError"
    using determine_lr_index [of 50 100 "[100]" "[0.1]"] by simp
  have a': "\<exists>sched. make_lr_schedule opt (Some [50, 100, 60]) (Some [0.1, 0.01, 0.001]) = Inr sched \<and>
      lr_lambda sched 70 = Inr 0.01"
    unfolding make_lr_schedule_both using a by simp
  have b': "\<exists>sched. make_lr_schedule opt (Some [50, 100]) (Some [0.1]) = Inr sched \<and>
      lr_lambda sched 100 = Inl IndexError"
    unfolding make_lr_schedule_both using b by simp
  show ?thesis
    using a' b' determine_lr_range [of es fs epoch] make_lr_schedule_both [of opt es fs] by blast
qed

text \<open>
  Claim C6 as stated fails: with empty lists, and with the breakpoint 0 and no factor,
  building the scheduler raises \<open>IndexError\<close>.
\<close>

theorem make_lr_schedule_unvalidated_counterexample:
  "make_lr_schedule () (Some []) (Some []) = Inl IndexError \<and>
   make_lr_schedule () (Some [0]) (Some []) = Inl IndexError"
  by (simp add: make_lr_schedule_def LambdaLR_def determine_lr_def np_where_le_def np_argmax_def)

section \<open>Properties of \<open>float2str\<close>\<close>

lemma digit_char_digit: "d < 10 \<Longrightarrow> digit_char d \<in> set ''0123456789''"
proof -
  assume "d < 10"
  then have "d \<in> {0,1,2,3,4,5,6,7,8,9::nat}" by auto
  then show ?thesis by (auto simp: digit_char_def)
qed

lemma str_nat_digits: "set (str_nat n) \<subseteq> set ''0123456789''"
proof (induction n rule: str_nat.induct)
  case (1 n)
  show ?case
  proof (cases "n < 10")
    case True
    then show ?thesis using digit_char_digit [of n] by (subst str_nat.simps) simp
  next
    case False
    have "n mod 10 < 10" by simp
    then have "digit_char (n mod 10) \<in> set ''0123456789''" by (rule digit_char_digit)
    then show ?thesis using False 1 by (subst str_nat.simps) simp
  qed
qed

lemma length_str_nat_upper: "n < 10 ^ Suc k \<Longrightarrow> length (str_nat n) \<le> Suc k"
proof (induction k arbitrary: n)
  case 0
  then show ?case by (subst str_nat.simps) simp
next
  case (Suc k)
  show ?case
  proof (cases "n < 10")
    case True
    then show ?thesis by (subst str_nat.simps) simp
  next
    case False
    have "n div 10 < 10 ^ Suc k" using Suc.prems by (simp add: less_mult_imp_div_less)
    then have "length (str_nat (n div 10)) \<le> Suc k" by (rule Suc.IH)
    then show ?thesis using False by (subst str_nat.simps) simp
  qed
qed

lemma length_str_nat_lower: "10 ^ k \<le> n \<Longrightarrow> Suc k \<le> length (str_nat n)"
proof (induction k arbitrary: n)
  case 0
  then show ?case by (subst str_nat.simps) simp
next
  case (Suc k)
  have "(10::nat) \<le> 10 * 10 ^ k" by simp
  also have "\<dots> \<le> n" using Suc.prems by simp
  finally have ge: "\<not> n < 10" by simp
  have "10 ^ k \<le> n div 10" using Suc.prems by (simp add: less_eq_div_iff_mult_less_eq)
  then have "Suc k \<le> length (str_nat (n div 10))" by (rule Suc.IH)
  then show ?case using ge by (subst str_nat.simps) simp
qed

lemma length_str_nat_eleven:
  "10 ^ 10 \<le> n \<Longrightarrow> n < 10 ^ 11 \<Longrightarrow> length (str_nat n) = 11"
  using length_str_nat_lower [of 10 n] length_str_nat_upper [of n 10] by simp

lemma scale_down_bounds:
  "0 < d \<Longrightarrow> d \<le> n \<Longrightarrow> d * 10 ^ scale_down n d \<le> n \<and> n < d * 10 ^ Suc (scale_down n d)"
proof (induction n d rule: scale_down.induct)
  case (1 n d)
  show ?case
  proof (cases "10 * d \<le> n")
    case True
    with 1 have "10 * d * 10 ^ scale_down n (10 * d) \<le> n \<and> n < 10 * d * 10 ^ Suc (scale_down n (10 * d))"
      by simp
    moreover have "scale_down n d = Suc (scale_down n (10 * d))"
      using True 1(2) by (subst scale_down.simps) simp
    ultimately show ?thesis by (simp add: mult.assoc mult.left_commute)
  next
    case False
    then have "scale_down n d = 0" by (subst scale_down.simps) simp
    then show ?thesis using False 1 by simp
  qed
qed

lemma scale_up_bounds:
  "0 < n \<Longrightarrow> n < d \<Longrightarrow>
   0 < scale_up n d \<and> d \<le> n * 10 ^ scale_up n d \<and> n * 10 ^ scale_up n d < 10 * d"
proof (induction n d rule: scale_up.induct)
  case (1 n d)
  have step: "scale_up n d = Suc (scale_up (10 * n) d)"
    using 1(2,3) by (subst scale_up.simps) simp
  show ?case
  proof (cases "10 * n < d")
    case True
    with 1 have "d \<le> 10 * n * 10 ^ scale_up (10 * n) d \<and> 10 * n * 10 ^ scale_up (10 * n) d < 10 * d"
      by simp
    then show ?thesis using step by (simp add: mult.assoc mult.left_commute)
  next
    case False
    then have "scale_up (10 * n) d = 0" by (subst scale_up.simps) simp
    then show ?thesis using False 1 step by simp
  qed
qed

lemma round_half_even_bounds:
  assumes "0 < d" "lo * d \<le> n" "n < hi * d"
  shows "lo \<le> round_half_even n d \<and> round_half_even n d \<le> hi"
proof -
  have a: "lo \<le> n div d" using assms by (simp add: less_eq_div_iff_mult_less_eq)
  have b: "n div d < hi" using assms by (simp add: div_less_iff_less_mult)
  show ?thesis using a b by (auto simp: round_half_even_def Let_def)
qed


lemma scaled_digits_bounds:
  assumes n: "0 < n" and d: "0 < d"
  defines "k \<equiv> decimal_exponent n d"
  defines "q \<equiv> (if k \<le> 10 then round_half_even (n * 10 ^ nat (10 - k)) d
                  else round_half_even n (d * 10 ^ nat (k - 10)))"
  shows "10 ^ 10 \<le> q \<and> q \<le> 10 ^ 11"
proof (cases "d \<le> n")
  case True
  define a where "a = scale_down n d"
  have k: "k = int a" using True by (simp add: k_def decimal_exponent_def a_def)
  have b: "d * 10 ^ a \<le> n" "n < d * 10 ^ Suc a"
    using scale_down_bounds [OF d True] by (simp_all add: a_def)
  show ?thesis
  proof (cases "a \<le> 10")
    case True
    then have q: "q = round_half_even (n * 10 ^ (10 - a)) d"
      by (simp add: q_def k nat_diff_distrib')
    have e1: "10 ^ a * (10::nat) ^ (10 - a) = 10 ^ 10"
      using True by (simp flip: power_add)
    have "10 ^ 10 * d = (d * 10 ^ a) * 10 ^ (10 - a)" using e1 by (simp add: mult.assoc mult.commute)
    also have "\<dots> \<le> n * 10 ^ (10 - a)" using b(1) by simp
    finally have lo: "10 ^ 10 * d \<le> n * 10 ^ (10 - a)" .
    have "n * 10 ^ (10 - a) < (d * 10 ^ Suc a) * 10 ^ (10 - a)" using b(2) by simp
    also have "\<dots> = 10 ^ 11 * d" using e1 by (simp add: mult.assoc mult.left_commute mult.commute)
    finally have hi: "n * 10 ^ (10 - a) < 10 ^ 11 * d" .
    show ?thesis unfolding q by (rule round_half_even_bounds [OF d lo hi])
  next
    case False
    then have q: "q = round_half_even n (d * 10 ^ (a - 10))"
      by (simp add: q_def k nat_diff_distrib')
    have "10 + (a - 10) = a" using False by simp
    then have e1: "(10::nat) ^ 10 * 10 ^ (a - 10) = 10 ^ a"
      by (metis power_add)
    have d': "0 < d * 10 ^ (a - 10)" using d by simp
    have "10 ^ 10 * (d * 10 ^ (a - 10)) = d * ((10::nat) ^ 10 * 10 ^ (a - 10))"
      by (simp only: mult.left_commute)
    also have "\<dots> = d * 10 ^ a" by (simp only: e1)
    finally have eq_lo: "10 ^ 10 * (d * 10 ^ (a - 10)) = d * 10 ^ a" .
    have lo: "10 ^ 10 * (d * 10 ^ (a - 10)) \<le> n" unfolding eq_lo by (rule b(1))
    have "10 ^ 11 * (d * 10 ^ (a - 10)) = d * (10 * ((10::nat) ^ 10 * 10 ^ (a - 10)))"
      by (simp add: ac_simps)
    also have "\<dots> = d * 10 ^ Suc a" by (simp only: e1 power_Suc)
    finally have eq_hi: "10 ^ 11 * (d * 10 ^ (a - 10)) = d * 10 ^ Suc a" .
    have hi: "n < 10 ^ 11 * (d * 10 ^ (a - 10))" unfolding eq_hi by (rule b(2))
    show ?thesis unfolding q by (rule round_half_even_bounds [OF d' lo hi])
  qed
next
  case False
  then have lt: "n < d" by simp
  define j where "j = scale_up n d"
  have k: "k = - int j" using False by (simp add: k_def decimal_exponent_def j_def)
  have b: "d \<le> n * 10 ^ j" "n * 10 ^ j < 10 * d"
    using scale_up_bounds [OF n lt] by (simp_all add: j_def)
  have "nat (10 - k) = 10 + j" by (simp add: k)
  then have q: "q = round_half_even (n * 10 ^ (10 + j)) d"
    by (simp add: q_def k)
  have lo: "10 ^ 10 * d \<le> n * 10 ^ (10 + j)"
    using b(1) by (simp add: power_add mult.assoc mult.left_commute mult.commute)
  have "n * 10 ^ (10 + j) = (n * 10 ^ j) * 10 ^ 10" by (simp add: power_add)
  also have "\<dots> < (10 * d) * 10 ^ 10" using b(2) by simp
  finally have hi: "n * 10 ^ (10 + j) < 10 ^ 11 * d" by simp
  show ?thesis unfolding q by (rule round_half_even_bounds [OF d lo hi])
qed


lemma exponent_str_zero: "exponent_str 0 = ''+00''"
  by (simp add: exponent_str_def str_nat.simps digit_char_def)

lemma exponent_str_no_e: "CHR ''e'' \<notin> set (exponent_str k)"
  using str_nat_digits [of "nat \<bar>k\<bar>"] by (auto simp: exponent_str_def Let_def)

lemma format_10e_shape:
  "\<exists>d fraction k. format_10e (Finite s m e) = sign_str s @ d # ''.'' @ fraction @ ''e'' @ exponent_str k \<and>
      d \<in> set ''0123456789'' \<and> set fraction \<subseteq> set ''0123456789'' \<and> length fraction = 10"
proof (cases "m = 0")
  case True
  have "format_10e (Finite s m e) = sign_str s @ CHR ''0'' # ''.'' @ ''0000000000'' @ ''e'' @ exponent_str 0"
    using True by (simp add: format_10e_def exponent_str_zero)
  then show ?thesis by (intro exI [of _ "CHR ''0''"] exI [of _ "''0000000000''"] exI [of _ 0]) simp
next
  case False
  define n where "n = (if 0 \<le> e then m * 2 ^ nat e else m)"
  define d where "d = (if 0 \<le> e then 1 else (2::nat) ^ nat (- e))"
  define k where "k = decimal_exponent n d"
  define q where "q = (if k \<le> 10 then round_half_even (n * 10 ^ nat (10 - k)) d
                       else round_half_even n (d * 10 ^ nat (k - 10)))"
  define q' where "q' = (if q = 10 ^ 11 then 10 ^ 10 else q)"
  define k' where "k' = (if q = 10 ^ 11 then k + 1 else k)"
  define ds where "ds = str_nat q'"
  have fmt: "format_10e (Finite s m e) = sign_str s @ take 1 ds @ ''.'' @ drop 1 ds @ ''e'' @ exponent_str k'"
    using False unfolding format_10e_def ds_def q'_def k'_def q_def k_def n_def d_def
    by (simp add: Let_def)
  have "0 < n" "0 < d" using False by (simp_all add: n_def d_def)
  then have "10 ^ 10 \<le> q \<and> q \<le> 10 ^ 11"
    unfolding q_def k_def by (rule scaled_digits_bounds)
  then have "10 ^ 10 \<le> q'" "q' < 10 ^ 11" by (auto simp: q'_def)
  then have len: "length ds = 11" unfolding ds_def by (rule length_str_nat_eleven)
  then obtain c cs where ds: "ds = c # cs" by (cases ds) auto
  have dig: "set ds \<subseteq> set ''0123456789''" unfolding ds_def by (rule str_nat_digits)
  have "format_10e (Finite s m e) = sign_str s @ c # ''.'' @ cs @ ''e'' @ exponent_str k'"
    using fmt ds by simp
  moreover have "c \<in> set ''0123456789''" "set cs \<subseteq> set ''0123456789''" using dig ds by auto
  moreover have "length cs = 10" using len ds by simp
  ultimately show ?thesis by blast
qed

lemma split_on_absent: "sep \<notin> set s \<Longrightarrow> split_on sep s = [s]"
  by (induction s) auto

lemma split_on_first: "sep \<notin> set a \<Longrightarrow> split_on sep (a @ sep # b) = a # split_on sep b"
  by (induction a) auto

lemma rstrip_keeps: "x \<noteq> c \<Longrightarrow> rstrip c (a @ x # b) = a @ x # rstrip c b"
  by (induction b rule: rev_induct) (auto simp: rstrip_def)

lemma rstrip_no_trailing: "rstrip c s = [] \<or> last (rstrip c s) \<noteq> c"
proof -
  have "dropWhile (\<lambda>x. x = c) (rev s) = [] \<or> hd (dropWhile (\<lambda>x. x = c) (rev s)) \<noteq> c"
    using hd_dropWhile [of "\<lambda>x. x = c" "rev s"] by auto
  then show ?thesis by (auto simp: rstrip_def last_rev)
qed

lemma rstrip_suffix: "\<exists>zs. s = rstrip c s @ zs \<and> set zs \<subseteq> {c}"
proof -
  have "rev s = takeWhile (\<lambda>x. x = c) (rev s) @ dropWhile (\<lambda>x. x = c) (rev s)" by simp
  then have "s = rev (dropWhile (\<lambda>x. x = c) (rev s)) @ rev (takeWhile (\<lambda>x. x = c) (rev s))"
    by (metis rev_append rev_rev_ident)
  moreover have "set (rev (takeWhile (\<lambda>x. x = c) (rev s))) \<subseteq> {c}"
    by (auto dest: set_takeWhileD)
  ultimately show ?thesis unfolding rstrip_def by blast
qed


lemma format_10e_one: "format_10e (Finite False 1 0) = ''1.0000000000e+00''"
proof -
  have a: "decimal_exponent (Suc 0) (Suc 0) = 0"
    by (simp add: decimal_exponent_def scale_down.simps)
  have b: "round_half_even 10000000000 (Suc 0) = 10000000000"
    by (simp add: round_half_even_def)
  have c: "str_nat 10000000000 = ''10000000000''"
    by (simp add: str_nat.simps digit_char_def)
  show ?thesis by (simp add: format_10e_def sign_str_def a b c exponent_str_zero)
qed

lemma float2str_one: "float2str (Finite False 1 0) = Inr ''1.e+00''"
  unfolding float2str_def format_10e_one by (simp add: rstrip_def)

lemma sign_str_no_e: "CHR ''e'' \<notin> set (sign_str s)"
  by (simp add: sign_str_def)

lemma float2str_of_format:
  assumes fmt: "format_10e x = sg @ d # ''.'' @ fraction @ ''e'' @ ex"
    and sg: "CHR ''e'' \<notin> set sg" and d: "d \<noteq> CHR ''e''"
    and fraction: "CHR ''e'' \<notin> set fraction" and ex: "CHR ''e'' \<notin> set ex"
  shows "float2str x = Inr (sg @ d # ''.'' @ rstrip CHR ''0'' fraction @ ''e'' @ ex)"
proof -
  let ?mant = "sg @ d # ''.'' @ fraction"
  have m: "CHR ''e'' \<notin> set ?mant" using sg d fraction by simp
  have "split_on CHR ''e'' (?mant @ CHR ''e'' # ex) = ?mant # split_on CHR ''e'' ex"
    by (rule split_on_first [OF m])
  then have "split_on CHR ''e'' (?mant @ CHR ''e'' # ex) = [?mant, ex]"
    by (simp only: split_on_absent [OF ex])
  moreover have "format_10e x = ?mant @ CHR ''e'' # ex" using fmt by simp
  ultimately have "float2str x = Inr (rstrip CHR ''0'' ?mant @ ''e'' @ ex)"
    by (simp add: float2str_def)
  moreover have "rstrip CHR ''0'' ((sg @ [d]) @ CHR ''.'' # fraction) = (sg @ [d]) @ CHR ''.'' # rstrip CHR ''0'' fraction"
    by (rule rstrip_keeps) simp
  ultimately show ?thesis by simp
qed

text \<open>
  Claim C2, as amended. For a finite float, \<open>float2str\<close> returns the runtime's format
  with ten fractional digits in which the trailing zeros of the fraction are removed and
  the decimal point is kept, also when no fractional digit remains: \<open>float2str(1.0)\<close> is
  \<open>"1.e+00"\<close>.
\<close>

theorem float2str_strips_fraction:
  "(\<exists>d fraction ex.
      format_10e (Finite s m e) = sign_str s @ d # ''.'' @ fraction @ ''e'' @ ex \<and>
      d \<in> set ''0123456789'' \<and> set fraction \<subseteq> set ''0123456789'' \<and> length fraction = 10 \<and>
      float2str (Finite s m e) = Inr (sign_str s @ d # ''.'' @ rstrip CHR ''0'' fraction @ ''e'' @ ex)) \<and>
   float2str (Finite False 1 0) = Inr ''1.e+00''"
proof -
  obtain d fraction k where fmt: "format_10e (Finite s m e) = sign_str s @ d # ''.'' @ fraction @ ''e'' @ exponent_str k"
    and d: "d \<in> set ''0123456789''" and fraction: "set fraction \<subseteq> set ''0123456789''" and len: "length fraction = 10"
    using format_10e_shape [of s m e] by blast
  have "d \<noteq> CHR ''e''" using d by auto
  moreover have "CHR ''e'' \<notin> set fraction" using fraction by auto
  ultimately have "float2str (Finite s m e) = Inr (sign_str s @ d # ''.'' @ rstrip CHR ''0'' fraction @ ''e'' @ exponent_str k)"
    using float2str_of_format [OF fmt sign_str_no_e _ _ exponent_str_no_e] by blast
  then show ?thesis using fmt d fraction len float2str_one by blast
qed

text \<open>
  Claim C2 as stated fails: \<open>float2str(1.0)\<close> is not \<open>"1e+00"\<close>.
\<close>

theorem float2str_one_counterexample: "float2str (Finite False 1 0) \<noteq> Inr ''1e+00''"
  using float2str_one by simp

lemma float2str_not_finite: "float2str NaN = Inl ValueError" "float2str (Infinite s) = Inl ValueError"
  by (simp_all add: float2str_def format_10e_def sign_str_def)

section \<open>Properties of the regularization loss\<close>

lemma py_in_iff: "py_in needle haystack \<longleftrightarrow> (\<exists>pre post. haystack = pre @ needle @ post)"
proof (induction haystack)
  case Nil
  then show ?case by auto
next
  case (Cons c cs)
  have "take (length needle) (c # cs) = needle \<longleftrightarrow> (\<exists>post. c # cs = needle @ post)"
    by (metis append_eq_conv_conj append_take_drop_id)
  moreover have "(\<exists>pre post. c # cs = pre @ needle @ post) \<longleftrightarrow>
      (\<exists>post. c # cs = needle @ post) \<or> (\<exists>pre post. cs = pre @ needle @ post)"
  proof
    assume "\<exists>pre post. c # cs = pre @ needle @ post"
    then obtain pre post where eq: "c # cs = pre @ needle @ post" by blast
    show "(\<exists>post. c # cs = needle @ post) \<or> (\<exists>pre post. cs = pre @ needle @ post)"
    proof (cases pre)
      case Nil
      then show ?thesis using eq by auto
    next
      case (Cons p ps)
      then have "cs = ps @ needle @ post" using eq by simp
      then show ?thesis by blast
    qed
  next
    assume "(\<exists>post. c # cs = needle @ post) \<or> (\<exists>pre post. cs = pre @ needle @ post)"
    then show "\<exists>pre post. c # cs = pre @ needle @ post"
    proof
      assume "\<exists>post. c # cs = needle @ post"
      then obtain post where "c # cs = [] @ needle @ post" by auto
      then show ?thesis by blast
    next
      assume "\<exists>pre post. cs = pre @ needle @ post"
      then obtain pre post where "c # cs = (c # pre) @ needle @ post" by auto
      then show ?thesis by blast
    qed
  qed
  ultimately show ?case using Cons.IH by simp
qed

lemma collect_layer_norms_eq:
  "collect_layer_norms ar ps acc =
     acc @ map (\<lambda>(name, p). op_pow2_sum ar p) (filter (\<lambda>(name, p). \<not> py_in ''bias'' name) ps)"
  by (induction ar ps acc rule: collect_layer_norms.induct) auto

lemma not_bias_eq:
  "(\<lambda>(name, p). \<not> py_in ''bias'' name) = (\<lambda>(name, p). \<not> (\<exists>pre post. name = pre @ ''bias'' @ post))"
  by (simp add: py_in_iff)

lemma get_regularization_loss_eq:
  "get_regularization_loss ar self =
     op_mul ar (self_weight_decay self)
       (op_mul ar (float_half ar)
          (foldl (op_add ar) (int_zero ar)
             (map (\<lambda>(name, p). op_pow2_sum ar p)
                (filter (\<lambda>(name, p). \<not> (\<exists>pre post. name = pre @ ''bias'' @ post))
                   (net_named_parameters self)))))"
  by (simp add: get_regularization_loss_def collect_layer_norms_eq py_sum_def not_bias_eq)

text \<open>
  Claim C3, as amended. In whatever arithmetic the framework computes, the regularization
  loss is the weight-decay coefficient times the product of 0.5 and the sum, taken from 0
  in the order of the network, of the squared norms of exactly those parameters whose
  names do not contain \<open>bias\<close>; the parameters whose names contain \<open>bias\<close> contribute
  nothing, so that the loss is that of the network without them.
\<close>

theorem get_regularization_loss_half:
  "get_regularization_loss ar self =
     op_mul ar (self_weight_decay self)
       (op_mul ar (float_half ar)
          (foldl (op_add ar) (int_zero ar)
             (map (\<lambda>(name, p). op_pow2_sum ar p)
                (filter (\<lambda>(name, p). \<not> (\<exists>pre post. name = pre @ ''bias'' @ post))
                   (net_named_parameters self))))) \<and>
   get_regularization_loss ar self =
     get_regularization_loss ar
       (self\<lparr>net_named_parameters :=
               filter (\<lambda>(name, p). \<not> (\<exists>pre post. name = pre @ ''bias'' @ post))
                 (net_named_parameters self)\<rparr>)"
  by (simp add: get_regularization_loss_eq)

text \<open>
  Claim C3 as stated fails: with weight decay 1, one weight tensor of squared norm 4 and
  one bias tensor, the loss is 2, while the weight decay times the sum of the squared
  norms of the parameters without \<open>bias\<close> in their names is 4. No operation rounds on
  these values.
\<close>

theorem get_regularization_loss_counterexample:
  "get_regularization_loss exact_arithmetic
     \<lparr>self_weight_decay = 1, net_named_parameters = [(''conv.weight'', [2]), (''conv.bias'', [3])]\<rparr>
     = 2 \<and>
   1 * (\<Sum>(name, p) \<leftarrow> filter (\<lambda>(name, p). \<not> py_in ''bias'' name)
                               [(''conv.weight'', [2 :: real]), (''conv.bias'', [3])].
              \<Sum>x \<leftarrow> p. x ^ 2) = 4"
  by (simp add: get_regularization_loss_def py_sum_def exact_arithmetic_def)

section \<open>Properties of \<open>make_run_name\<close>\<close>

lemma float2str_finite_ok: "\<exists>t. float2str (Finite s m e) = Inr t"
proof -
  obtain d fraction k where fmt: "format_10e (Finite s m e) = sign_str s @ d # ''.'' @ fraction @ ''e'' @ exponent_str k"
    and d: "d \<in> set ''0123456789''" and fr: "set fraction \<subseteq> set ''0123456789''"
    using format_10e_shape [of s m e] by blast
  have "d \<noteq> CHR ''e''" using d by auto
  moreover have "CHR ''e'' \<notin> set fraction" using fr by auto
  ultimately show ?thesis
    using float2str_of_format [OF fmt sign_str_no_e _ _ exponent_str_no_e] by blast
qed

lemma float2str_Inr_iff: "(\<exists>t. float2str x = Inr t) \<longleftrightarrow> isfinite x"
proof (cases x)
  case (Finite s m e)
  then show ?thesis using float2str_finite_ok [of s m e] by (simp add: isfinite_def)
next
  case (Infinite s)
  then show ?thesis by (simp add: isfinite_def float2str_not_finite)
next
  case NaN
  then show ?thesis by (simp add: isfinite_def float2str_not_finite)
qed

lemma float2str_text: "float2str x = Inr t \<Longrightarrow> float_text x = t"
  by (simp add: float_text_def)

lemma float2str_isfinite: "isfinite x \<Longrightarrow> float2str x = Inr (float_text x)"
  using float2str_Inr_iff [of x] by (auto simp: float_text_def)

lemma hp_value_str_Inr_iff: "(\<exists>t. hp_value_str v = Inr t) \<longleftrightarrow> (\<forall>x. v = HFloat x \<longrightarrow> isfinite x)"
  using float2str_Inr_iff by (cases v) (auto simp: hp_value_str_def)

lemma hp_value_str_text: "hp_value_str v = Inr t \<Longrightarrow> hp_value_text v = t"
  by (simp add: hp_value_text_def)

lemma bind_err_Inr_iff:
  "bind_err r f = Inr y \<longleftrightarrow> (\<exists>v. r = Inr v \<and> f v = Inr y)"
  by (cases r) (auto simp: bind_err_def)

lemma add_hyperparams_Inr:
  "add_hyperparams xs acc = Inr r \<longleftrightarrow>
     (\<forall>(name, v) \<in> set xs. \<forall>x. v = HFloat x \<longrightarrow> isfinite x) \<and>
     r = acc @ concat (map (\<lambda>(name, v). name @ ''__'' @ hp_value_text v @ ''__'') xs)"
proof (induction xs acc rule: add_hyperparams.induct)
  case (1 acc)
  then show ?case by auto
next
  case (2 hp_name hp_value rest acc)
  show ?case
  proof (cases "hp_value_str hp_value")
    case (Inl e)
    then have "\<not> (\<forall>x. hp_value = HFloat x \<longrightarrow> isfinite x)"
      using hp_value_str_Inr_iff [of hp_value] by auto
    then show ?thesis using Inl by (auto simp: bind_err_def)
  next
    case (Inr t)
    then have ok: "\<forall>x. hp_value = HFloat x \<longrightarrow> isfinite x"
      using hp_value_str_Inr_iff [of hp_value] by blast
    have t: "hp_value_text hp_value = t" using Inr by (rule hp_value_str_text)
    show ?thesis using 2 [of t] Inr ok t by (auto simp: bind_err_def)
  qed
qed

lemma add_schedule_Inr:
  "add_schedule ps lr acc = Inr r \<longleftrightarrow>
     (\<forall>(epoch, factor) \<in> set ps. isfinite (float_mul factor lr)) \<and>
     r = acc @ concat (map (\<lambda>(epoch, factor). ''_'' @ str_int epoch @ ''_'' @ float_text (float_mul factor lr)) ps)"
proof (induction ps lr acc rule: add_schedule.induct)
  case (1 lr acc)
  then show ?case by auto
next
  case (2 epoch factor rest lr acc)
  show ?case
  proof (cases "float2str (float_mul factor lr)")
    case (Inl e)
    then have "\<not> isfinite (float_mul factor lr)"
      using float2str_Inr_iff [of "float_mul factor lr"] by auto
    then show ?thesis using Inl by (auto simp: bind_err_def)
  next
    case (Inr t)
    then have ok: "isfinite (float_mul factor lr)"
      using float2str_Inr_iff [of "float_mul factor lr"] by blast
    have t: "float_text (float_mul factor lr) = t" using Inr by (rule float2str_text)
    show ?thesis using 2 [of t] Inr ok t by (auto simp: bind_err_def)
  qed
qed


lemma prefix_Inr_iff:
  "(case wd of
      None \<Rightarrow> Inr (''num_epochs__'' @ str_int ne @ ''__batch_size__'' @ str_int bs @ ''__'')
    | Some w \<Rightarrow>
        bind_err (float2str w)
          (\<lambda>t. Inr (''num_epochs__'' @ str_int ne @ ''__batch_size__'' @ str_int bs @ ''__''
                    @ ''weight_decay__'' @ t @ ''__''))) = Inr r
   \<longleftrightarrow> (\<forall>w. wd = Some w \<longrightarrow> isfinite w) \<and>
       r = ''num_epochs__'' @ str_int ne @ ''__batch_size__'' @ str_int bs @ ''__'' @
           (case wd of None \<Rightarrow> [] | Some w \<Rightarrow> ''weight_decay__'' @ float_text w @ ''__'')"
proof (cases wd)
  case None
  then show ?thesis by auto
next
  case (Some w)
  show ?thesis
  proof (cases "isfinite w")
    case True
    then show ?thesis using Some float2str_isfinite [OF True] by (auto simp: bind_err_def)
  next
    case False
    then have "\<nexists>t. float2str w = Inr t" using float2str_Inr_iff [of w] by simp
    then show ?thesis using Some False by (auto simp: bind_err_Inr_iff)
  qed
qed

lemma tail_Inr_iff:
  "(case es of
      None \<Rightarrow> Inr (name2 @ ''lr__'' @ t)
    | Some epochs \<Rightarrow>
        (case fs of
           None \<Rightarrow> Inl TypeError
         | Some factors \<Rightarrow> add_schedule (zip epochs factors) lr (name2 @ ''lr_schedule__0_'' @ t))) = Inr r
   \<longleftrightarrow> (\<forall>epochs. es = Some epochs \<longrightarrow>
          (\<exists>factors. fs = Some factors \<and>
             (\<forall>(epoch, factor) \<in> set (zip epochs factors). isfinite (float_mul factor lr)))) \<and>
       r = name2 @
         (case es of
            None \<Rightarrow> ''lr__'' @ t
          | Some epochs \<Rightarrow>
              ''lr_schedule__0_'' @ t @
              concat (map (\<lambda>(epoch, factor). ''_'' @ str_int epoch @ ''_'' @ float_text (float_mul factor lr))
                       (zip epochs (case fs of None \<Rightarrow> [] | Some factors \<Rightarrow> factors))))"
proof (cases es)
  case None
  then show ?thesis by auto
next
  case (Some epochs)
  show ?thesis
  proof (cases fs)
    case None
    then show ?thesis using Some by simp
  next
    case (Some factors)
    then show ?thesis using \<open>es = Some epochs\<close> by (simp add: add_schedule_Inr)
  qed
qed

lemma make_run_name_Inr_iff:
  "make_run_name now wd bs ne lr es fs seed hps = Inr (folder, file) \<longleftrightarrow>
     (\<forall>w. wd = Some w \<longrightarrow> isfinite w) \<and>
     (\<forall>(name, v) \<in> set hps. \<forall>x. v = HFloat x \<longrightarrow> isfinite x) \<and>
     isfinite lr \<and>
     (\<forall>epochs. es = Some epochs \<longrightarrow>
        (\<exists>factors. fs = Some factors \<and>
           (\<forall>(epoch, factor) \<in> set (zip epochs factors). isfinite (float_mul factor lr)))) \<and>
     folder = spec_run_folder_name wd bs ne lr es fs (sort_key fst hps) \<and>
     file = ''random_seed__'' @ str_int seed @ ''__'' @ strftime now"
proof (cases "isfinite lr")
  case False
  then have "\<nexists>t. float2str lr = Inr t" using float2str_Inr_iff [of lr] by simp
  then have "make_run_name now wd bs ne lr es fs seed hps \<noteq> Inr (folder, file)"
    unfolding make_run_name_def by (auto simp: bind_err_Inr_iff)
  then show ?thesis using False by simp
next
  case True
  note lr = float2str_isfinite [OF True]
  show ?thesis
    unfolding make_run_name_def bind_err_Inr_iff prefix_Inr_iff add_hyperparams_Inr tail_Inr_iff lr
    using True by (auto simp: spec_run_folder_name_def)
qed


lemma make_run_name_example:
  "make_run_name \<lparr>tm_year = 2019, tm_mon = 3, tm_mday = 7, tm_hour = 9, tm_min = 5, tm_sec = 59\<rparr>
     None 128 10 (Finite False 1 0) None None 42 [(''momentum'', HFloat (Finite False 1 0)), (''beta'', HInt 3)]
   = Inr (''num_epochs__10__batch_size__128__beta__3__momentum__1.e+00__lr__1.e+00'',
          ''random_seed__42__2019-03-07-09-05-59'')"
proof -
  have one: "float_text (Finite False 1 0) = ''1.e+00''"
    using float2str_one by (simp add: float_text_def)
  have ints: "str_int 10 = ''10''" "str_int 128 = ''128''" "str_int 42 = ''42''" "str_int 3 = ''3''"
    by (simp_all add: str_int_def str_nat.simps digit_char_def)
  have hp: "hp_value_text (HFloat (Finite False 1 0)) = ''1.e+00''" "hp_value_text (HInt 3) = ''3''"
    using float2str_one ints by (simp_all add: hp_value_text_def hp_value_str_def)
  have time: "strftime \<lparr>tm_year = 2019, tm_mon = 3, tm_mday = 7, tm_hour = 9, tm_min = 5, tm_sec = 59\<rparr>
      = ''2019-03-07-09-05-59''"
    by (simp add: strftime_def pad2_def str_nat.simps digit_char_def)
  have srt: "sort_key fst [(''momentum'', HFloat (Finite False 1 0)), (''beta'', HInt 3)]
      = [(''beta'', HInt 3), (''momentum'', HFloat (Finite False 1 0))]"
    by (simp add: less_eq_char_def)
  show ?thesis
    unfolding make_run_name_Inr_iff
    by (simp add: isfinite_def spec_run_folder_name_def one ints hp time srt del: One_nat_def)
qed


text \<open>
  A second example, with a weight decay, a negative hyperparameter and a schedule: the
  learning rate 0.3, the weight decay 0.0005, the breakpoints 50 and 100 with the factors
  0.1 and 0.01 (the binary64 values nearest to these decimals), and the hyperparameter
  \<open>offset\<close> of value -0.5. The products of the factors with the learning rate are rounded
  to binary64, and each float is written from its exact value.
\<close>

lemma format_10e_fraction:
  assumes "m \<noteq> 0" "e < 0" "decimal_exponent m (2 ^ nat (- e)) = k" "k \<le> 10"
    and "round_half_even (m * 10 ^ nat (10 - k)) (2 ^ nat (- e)) = q" "q \<noteq> 10 ^ 11"
    and "str_nat q = dg"
  shows "format_10e (Finite s m e) = sign_str s @ take 1 dg @ ''.'' @ drop 1 dg @ ''e'' @ exponent_str k"
  using assms by (simp add: format_10e_def Let_def)

lemma format_10e_lr: "format_10e (Finite False 5404319552844595 (- 54)) = ''3.0000000000e-01''"
proof -
  have a: "decimal_exponent 5404319552844595 (2 ^ nat (- (- 54))) = - 1"
    by (simp add: decimal_exponent_def scale_up.simps)
  have b: "round_half_even (5404319552844595 * 10 ^ nat (10 - (- 1))) (2 ^ nat (- (- 54))) = 30000000000"
    by (simp add: round_half_even_def)
  have c: "str_nat 30000000000 = ''30000000000''"
    by (simp add: str_nat.simps digit_char_def)
  have d: "exponent_str (- 1) = ''-01''"
    by (simp add: exponent_str_def str_nat.simps digit_char_def)
  show ?thesis
    using format_10e_fraction [where s = False and m = 5404319552844595 and e = "- 54", OF _ _ a _ b _ c]
    by (simp add: sign_str_def d)
qed

lemma float2str_lr: "float2str (Finite False 5404319552844595 (- 54)) = Inr ''3.e-01''"
  unfolding float2str_def format_10e_lr by (simp add: rstrip_def)

lemma format_10e_wd: "format_10e (Finite False 1152921504606847 (- 61)) = ''5.0000000000e-04''"
proof -
  have a: "decimal_exponent 1152921504606847 (2 ^ nat (- (- 61))) = - 4"
    by (simp add: decimal_exponent_def scale_up.simps)
  have b: "round_half_even (1152921504606847 * 10 ^ nat (10 - (- 4))) (2 ^ nat (- (- 61))) = 50000000000"
    by (simp add: round_half_even_def)
  have c: "str_nat 50000000000 = ''50000000000''"
    by (simp add: str_nat.simps digit_char_def)
  have d: "exponent_str (- 4) = ''-04''"
    by (simp add: exponent_str_def str_nat.simps digit_char_def)
  show ?thesis
    using format_10e_fraction [where s = False and m = 1152921504606847 and e = "- 61", OF _ _ a _ b _ c]
    by (simp add: sign_str_def d)
qed

lemma float2str_wd: "float2str (Finite False 1152921504606847 (- 61)) = Inr ''5.e-04''"
  unfolding float2str_def format_10e_wd by (simp add: rstrip_def)

lemma format_10e_offset: "format_10e (Finite True 1 (- 1)) = ''-5.0000000000e-01''"
proof -
  have a: "decimal_exponent 1 (2 ^ nat (- (- 1))) = - 1"
    by (simp add: decimal_exponent_def scale_up.simps)
  have b: "round_half_even (1 * 10 ^ nat (10 - (- 1))) (2 ^ nat (- (- 1))) = 50000000000"
    by (simp add: round_half_even_def)
  have c: "str_nat 50000000000 = ''50000000000''"
    by (simp add: str_nat.simps digit_char_def)
  have d: "exponent_str (- 1) = ''-01''"
    by (simp add: exponent_str_def str_nat.simps digit_char_def)
  show ?thesis
    using format_10e_fraction [where s = True and m = 1 and e = "- 1", OF _ _ a _ b _ c]
    by (simp add: sign_str_def d)
qed

lemma float2str_offset: "float2str (Finite True 1 (- 1)) = Inr ''-5.e-01''"
  unfolding float2str_def format_10e_offset by (simp add: rstrip_def)

lemma float_mul_first:
  "float_mul (Finite False 3602879701896397 (- 55)) (Finite False 5404319552844595 (- 54)) = Finite False 8646911284551352 (- 58)"
proof -
  have p: "(3602879701896397::nat) * 5404319552844595 = 19471113219505603967277331424215" by simp
  have bl: "bitlen 19471113219505603967277331424215 = 104"
    by (simp add: bitlen.simps)
  have r: "round_half_even 19471113219505603967277331424215 2251799813685248 = 8646911284551352"
    by (simp add: round_half_even_def)
  have bl2: "bitlen 8646911284551352 = 53" by (simp add: bitlen.simps)
  show ?thesis by (simp add: round_binary64_def p bl r bl2 Let_def)
qed

lemma float_mul_second:
  "float_mul (Finite False 5764607523034235 (- 59)) (Finite False 5404319552844595 (- 54)) = Finite False 6917529027641082 (- 61)"
proof -
  have p: "(5764607523034235::nat) * 5404319552844595 = 31153781151208965266779819709825" by simp
  have bl: "bitlen 31153781151208965266779819709825 = 105"
    by (simp add: bitlen.simps)
  have r: "round_half_even 31153781151208965266779819709825 4503599627370496 = 6917529027641082"
    by (simp add: round_half_even_def)
  have bl2: "bitlen 6917529027641082 = 53" by (simp add: bitlen.simps)
  show ?thesis by (simp add: round_binary64_def p bl r bl2 Let_def)
qed

lemma format_10e_first: "format_10e (Finite False 8646911284551352 (- 58)) = ''3.0000000000e-02''"
proof -
  have a: "decimal_exponent 8646911284551352 (2 ^ nat (- (- 58))) = - 2"
    by (simp add: decimal_exponent_def scale_up.simps)
  have b: "round_half_even (8646911284551352 * 10 ^ nat (10 - (- 2))) (2 ^ nat (- (- 58))) = 30000000000"
    by (simp add: round_half_even_def)
  have c: "str_nat 30000000000 = ''30000000000''"
    by (simp add: str_nat.simps digit_char_def)
  have d: "exponent_str (- 2) = ''-02''"
    by (simp add: exponent_str_def str_nat.simps digit_char_def)
  show ?thesis
    using format_10e_fraction [where s = False and m = 8646911284551352 and e = "- 58", OF _ _ a _ b _ c]
    by (simp add: sign_str_def d)
qed

lemma float2str_first: "float2str (Finite False 8646911284551352 (- 58)) = Inr ''3.e-02''"
  unfolding float2str_def format_10e_first by (simp add: rstrip_def)

lemma format_10e_second: "format_10e (Finite False 6917529027641082 (- 61)) = ''3.0000000000e-03''"
proof -
  have a: "decimal_exponent 6917529027641082 (2 ^ nat (- (- 61))) = - 3"
    by (simp add: decimal_exponent_def scale_up.simps)
  have b: "round_half_even (6917529027641082 * 10 ^ nat (10 - (- 3))) (2 ^ nat (- (- 61))) = 30000000000"
    by (simp add: round_half_even_def)
  have c: "str_nat 30000000000 = ''30000000000''"
    by (simp add: str_nat.simps digit_char_def)
  have d: "exponent_str (- 3) = ''-03''"
    by (simp add: exponent_str_def str_nat.simps digit_char_def)
  show ?thesis
    using format_10e_fraction [where s = False and m = 6917529027641082 and e = "- 61", OF _ _ a _ b _ c]
    by (simp add: sign_str_def d)
qed

lemma float2str_second: "float2str (Finite False 6917529027641082 (- 61)) = Inr ''3.e-03''"
  unfolding float2str_def format_10e_second by (simp add: rstrip_def)


lemma make_run_name_schedule_example:
  "make_run_name \<lparr>tm_year = 2019, tm_mon = 3, tm_mday = 7, tm_hour = 9, tm_min = 5, tm_sec = 59\<rparr>
     (Some (Finite False 1152921504606847 (- 61))) 128 10 (Finite False 5404319552844595 (- 54))
     (Some [50, 100])
     (Some [Finite False 3602879701896397 (- 55), Finite False 5764607523034235 (- 59)]) 42
     [(''offset'', HFloat (Finite True 1 (- 1))), (''beta'', HInt 3)]
   = Inr (''num_epochs__10__batch_size__128__weight_decay__5.e-04__beta__3__offset__-5.e-01__lr_schedule__0_3.e-01_50_3.e-02_100_3.e-03'',
          ''random_seed__42__2019-03-07-09-05-59'')"
proof -
  have ints: "str_int 10 = ''10''" "str_int 128 = ''128''" "str_int 42 = ''42''" "str_int 3 = ''3''"
    "str_int 50 = ''50''" "str_int 100 = ''100''"
    by (simp_all add: str_int_def str_nat.simps digit_char_def)
  have texts: "float_text (Finite False 5404319552844595 (- 54)) = ''3.e-01''"
    "float_text (Finite False 1152921504606847 (- 61)) = ''5.e-04''"
    "float_text (Finite False 8646911284551352 (- 58)) = ''3.e-02''"
    "float_text (Finite False 6917529027641082 (- 61)) = ''3.e-03''"
    by (simp_all add: float_text_def float2str_lr float2str_wd float2str_first float2str_second)
  have hp: "hp_value_text (HFloat (Finite True 1 (- 1))) = ''-5.e-01''" "hp_value_text (HInt 3) = ''3''"
    using float2str_offset ints by (simp_all add: hp_value_text_def hp_value_str_def)
  have time: "strftime \<lparr>tm_year = 2019, tm_mon = 3, tm_mday = 7, tm_hour = 9, tm_min = 5, tm_sec = 59\<rparr>
      = ''2019-03-07-09-05-59''"
    by (simp add: strftime_def pad2_def str_nat.simps digit_char_def)
  have srt: "sort_key fst [(''offset'', HFloat (Finite True 1 (- 1))), (''beta'', HInt 3)]
      = [(''beta'', HInt 3), (''offset'', HFloat (Finite True 1 (- 1)))]"
    by (simp add: less_eq_char_def)
  show ?thesis
    unfolding make_run_name_Inr_iff
    by (simp add: isfinite_def spec_run_folder_name_def texts ints hp time srt
          float_mul_first float_mul_second del: One_nat_def float_mul.simps)
qed

text \<open>
  Claim C4. Whenever \<open>make_run_name\<close> returns, the folder name is the one of the naming
  convention, with the hyperparameters in the order of their names (a rearrangement of
  the given items whose names ascend), and the file name is \<open>random_seed__<S>__\<close>
  followed by the timestamp. It returns for every input whose floats can be serialised
  (the weight decay, the float hyperparameters, the learning rate and each product of a
  factor with the learning rate are finite) and whose factor list is given when the
  breakpoint list is.
\<close>

theorem make_run_name_format:
  "(make_run_name now wd bs ne lr es fs seed hps = Inr (folder, file) \<longrightarrow>
      (\<exists>ordered. mset ordered = mset hps \<and> sorted (map fst ordered) \<and>
         folder = spec_run_folder_name wd bs ne lr es fs ordered) \<and>
      file = ''random_seed__'' @ str_int seed @ ''__'' @ strftime now) \<and>
   ((\<forall>w. wd = Some w \<longrightarrow> isfinite w) \<and>
    (\<forall>(name, v) \<in> set hps. \<forall>x. v = HFloat x \<longrightarrow> isfinite x) \<and>
    isfinite lr \<and>
    (\<forall>epochs. es = Some epochs \<longrightarrow>
       (\<exists>factors. fs = Some factors \<and>
          (\<forall>(epoch, factor) \<in> set (zip epochs factors). isfinite (float_mul factor lr)))) \<longrightarrow>
    (\<exists>folder file. make_run_name now wd bs ne lr es fs seed hps = Inr (folder, file)))"
proof -
  have ord: "mset (sort_key fst hps) = mset hps \<and> sorted (map fst (sort_key fst hps))"
    by simp
  show ?thesis
    unfolding make_run_name_Inr_iff using ord by blast
qed

theorem make_run_name_format_witness:
  "make_run_name \<lparr>tm_year = 2019, tm_mon = 3, tm_mday = 7, tm_hour = 9, tm_min = 5, tm_sec = 59\<rparr>
     None 128 10 (Finite False 1 0) None None 42 [(''momentum'', HFloat (Finite False 1 0)), (''beta'', HInt 3)]
   = Inr (''num_epochs__10__batch_size__128__beta__3__momentum__1.e+00__lr__1.e+00'',
          ''random_seed__42__2019-03-07-09-05-59'') \<and>
   (\<exists>ordered. mset ordered = mset [(''momentum'', HFloat (Finite False 1 0)), (''beta'', HInt 3)] \<and>
      sorted (map fst ordered) \<and>
      ''num_epochs__10__batch_size__128__beta__3__momentum__1.e+00__lr__1.e+00''
        = spec_run_folder_name None 128 10 (Finite False 1 0) None None ordered) \<and>
   make_run_name \<lparr>tm_year = 2019, tm_mon = 3, tm_mday = 7, tm_hour = 9, tm_min = 5, tm_sec = 59\<rparr>
     (Some (Finite False 1152921504606847 (- 61))) 128 10 (Finite False 5404319552844595 (- 54))
     (Some [50, 100])
     (Some [Finite False 3602879701896397 (- 55), Finite False 5764607523034235 (- 59)]) 42
     [(''offset'', HFloat (Finite True 1 (- 1))), (''beta'', HInt 3)]
   = Inr (''num_epochs__10__batch_size__128__weight_decay__5.e-04__beta__3__offset__-5.e-01__lr_schedule__0_3.e-01_50_3.e-02_100_3.e-03'',
          ''random_seed__42__2019-03-07-09-05-59'') \<and>
   (\<exists>ordered. mset ordered = mset [(''offset'', HFloat (Finite True 1 (- 1))), (''beta'', HInt 3)] \<and>
      sorted (map fst ordered) \<and>
      ''num_epochs__10__batch_size__128__weight_decay__5.e-04__beta__3__offset__-5.e-01__lr_schedule__0_3.e-01_50_3.e-02_100_3.e-03''
        = spec_run_folder_name (Some (Finite False 1152921504606847 (- 61))) 128 10
            (Finite False 5404319552844595 (- 54)) (Some [50, 100])
            (Some [Finite False 3602879701896397 (- 55), Finite False 5764607523034235 (- 59)]) ordered) \<and>
   isfinite (Finite False 1 (- 1)) \<and>
   (\<exists>folder file.
      make_run_name \<lparr>tm_year = 2019, tm_mon = 3, tm_mday = 7, tm_hour = 9, tm_min = 5, tm_sec = 59\<rparr>
        (Some (Finite False 1 (- 1))) 128 10 (Finite False 1 (- 1)) (Some [50])
        (Some [Finite False 1 (- 1)]) 42 [(''momentum'', HFloat (Finite False 1 (- 1)))]
      = Inr (folder, file))"
proof -
  let ?t = "\<lparr>tm_year = 2019, tm_mon = 3, tm_mday = 7, tm_hour = 9, tm_min = 5, tm_sec = 59\<rparr>"
  let ?half = "Finite False 1 (- 1)"
  have a: "(\<exists>ordered. mset ordered = mset [(''momentum'', HFloat (Finite False 1 0)), (''beta'', HInt 3)] \<and>
      sorted (map fst ordered) \<and>
      ''num_epochs__10__batch_size__128__beta__3__momentum__1.e+00__lr__1.e+00''
        = spec_run_folder_name None 128 10 (Finite False 1 0) None None ordered)"
    using make_run_name_format [of ?t None 128 10 "Finite False 1 0" None None 42
        "[(''momentum'', HFloat (Finite False 1 0)), (''beta'', HInt 3)]"
        "''num_epochs__10__batch_size__128__beta__3__momentum__1.e+00__lr__1.e+00''"
        "''random_seed__42__2019-03-07-09-05-59''"]
      make_run_name_example
    by blast
  have a': "(\<exists>ordered. mset ordered = mset [(''offset'', HFloat (Finite True 1 (- 1))), (''beta'', HInt 3)] \<and>
      sorted (map fst ordered) \<and>
      ''num_epochs__10__batch_size__128__weight_decay__5.e-04__beta__3__offset__-5.e-01__lr_schedule__0_3.e-01_50_3.e-02_100_3.e-03''
        = spec_run_folder_name (Some (Finite False 1152921504606847 (- 61))) 128 10
            (Finite False 5404319552844595 (- 54)) (Some [50, 100])
            (Some [Finite False 3602879701896397 (- 55), Finite False 5764607523034235 (- 59)]) ordered)"
    using make_run_name_format [of ?t "Some (Finite False 1152921504606847 (- 61))" 128 10
        "Finite False 5404319552844595 (- 54)" "Some [50, 100]"
        "Some [Finite False 3602879701896397 (- 55), Finite False 5764607523034235 (- 59)]" 42
        "[(''offset'', HFloat (Finite True 1 (- 1))), (''beta'', HInt 3)]"
        "''num_epochs__10__batch_size__128__weight_decay__5.e-04__beta__3__offset__-5.e-01__lr_schedule__0_3.e-01_50_3.e-02_100_3.e-03''"
        "''random_seed__42__2019-03-07-09-05-59''"]
      make_run_name_schedule_example
    by blast
  have fin: "isfinite ?half" by (simp add: isfinite_def)
  have "bitlen (Suc 0) = Suc 0" by (simp add: bitlen.simps)
  then have prod: "float_mul ?half ?half = Finite False 1 (- 2)"
    by (simp add: round_binary64_def)
  have b: "\<exists>folder file. make_run_name ?t (Some ?half) 128 10 ?half (Some [50]) (Some [?half]) 42
      [(''momentum'', HFloat ?half)] = Inr (folder, file)"
    using make_run_name_format [of ?t "Some ?half" 128 10 ?half "Some [50]" "Some [?half]" 42
        "[(''momentum'', HFloat ?half)]"] fin prod
    by (simp add: isfinite_def)
  show ?thesis using make_run_name_example make_run_name_schedule_example a a' fin b by blast
qed

text \<open>
  Claim C7, as amended. Two calls with identical arguments return identical folder names,
  whatever the clock shows, and the one returns exactly when the other does; their file
  names are identical exactly when both calls read the same timestamp from the clock.
\<close>

theorem make_run_name_clock:
  "(make_run_name now wd bs ne lr es fs seed hps = Inr (folder, file) \<and>
    make_run_name now' wd bs ne lr es fs seed hps = Inr (folder', file') \<longrightarrow>
      folder = folder' \<and> (file = file' \<longleftrightarrow> strftime now = strftime now')) \<and>
   ((\<exists>r. make_run_name now wd bs ne lr es fs seed hps = Inr r) \<longleftrightarrow>
    (\<exists>r. make_run_name now' wd bs ne lr es fs seed hps = Inr r))"
proof -
  have "(\<exists>r. make_run_name t wd bs ne lr es fs seed hps = Inr r) \<longleftrightarrow>
      (\<exists>folder file. make_run_name t wd bs ne lr es fs seed hps = Inr (folder, file))" for t
    by auto
  then show ?thesis unfolding make_run_name_Inr_iff by auto
qed

text \<open>
  Claim C7 as stated fails: two calls with identical arguments, one second apart, return
  different file names.
\<close>

theorem make_run_name_clock_counterexample:
  "make_run_name \<lparr>tm_year = 2019, tm_mon = 3, tm_mday = 7, tm_hour = 9, tm_min = 5, tm_sec = 58\<rparr>
     None 128 10 (Finite False 1 0) None None 42 []
   \<noteq> make_run_name \<lparr>tm_year = 2019, tm_mon = 3, tm_mday = 7, tm_hour = 9, tm_min = 5, tm_sec = 59\<rparr>
     None 128 10 (Finite False 1 0) None None 42 []"
proof -
  let ?t1 = "\<lparr>tm_year = 2019, tm_mon = 3, tm_mday = 7, tm_hour = 9, tm_min = 5, tm_sec = 58\<rparr>"
  let ?t2 = "\<lparr>tm_year = 2019, tm_mon = 3, tm_mday = 7, tm_hour = 9, tm_min = 5, tm_sec = 59\<rparr>"
  let ?f = "spec_run_folder_name None 128 10 (Finite False 1 0) None None (sort_key fst [])"
  have r: "make_run_name t None 128 10 (Finite False 1 0) None None 42 []
      = Inr (?f, ''random_seed__'' @ str_int 42 @ ''__'' @ strftime t)" for t
    unfolding make_run_name_Inr_iff by (simp add: isfinite_def)
  have "strftime ?t1 = ''2019-03-07-09-05-58''" "strftime ?t2 = ''2019-03-07-09-05-59''"
    by (simp_all add: strftime_def pad2_def str_nat.simps digit_char_def)
  then show ?thesis unfolding r by simp
qed

theorem make_run_name_clock_witness:
  "make_run_name \<lparr>tm_year = 2019, tm_mon = 3, tm_mday = 7, tm_hour = 9, tm_min = 5, tm_sec = 59\<rparr>
     None 128 10 (Finite False 1 0) None None 42 [(''momentum'', HFloat (Finite False 1 0)), (''beta'', HInt 3)]
   = Inr (''num_epochs__10__batch_size__128__beta__3__momentum__1.e+00__lr__1.e+00'',
          ''random_seed__42__2019-03-07-09-05-59'') \<and>
   (\<exists>file'. make_run_name \<lparr>tm_year = 2020, tm_mon = 1, tm_mday = 1, tm_hour = 0, tm_min = 0, tm_sec = 0\<rparr>
     None 128 10 (Finite False 1 0) None None 42 [(''momentum'', HFloat (Finite False 1 0)), (''beta'', HInt 3)]
   = Inr (''num_epochs__10__batch_size__128__beta__3__momentum__1.e+00__lr__1.e+00'', file'))"
proof -
  let ?t = "\<lparr>tm_year = 2019, tm_mon = 3, tm_mday = 7, tm_hour = 9, tm_min = 5, tm_sec = 59\<rparr>"
  let ?t' = "\<lparr>tm_year = 2020, tm_mon = 1, tm_mday = 1, tm_hour = 0, tm_min = 0, tm_sec = 0\<rparr>"
  let ?hps = "[(''momentum'', HFloat (Finite False 1 0)), (''beta'', HInt 3)]"
  have "\<exists>r. make_run_name ?t' None 128 10 (Finite False 1 0) None None 42 ?hps = Inr r"
    using make_run_name_clock [of ?t None 128 10 "Finite False 1 0" None None 42 ?hps _ _ ?t']
      make_run_name_example by blast
  then obtain folder' file' where
    r: "make_run_name ?t' None 128 10 (Finite False 1 0) None None 42 ?hps = Inr (folder', file')"
    by fastforce
  then have "''num_epochs__10__batch_size__128__beta__3__momentum__1.e+00__lr__1.e+00'' = folder'"
    using make_run_name_clock [of ?t None 128 10 "Finite False 1 0" None None 42 ?hps
       "''num_epochs__10__batch_size__128__beta__3__momentum__1.e+00__lr__1.e+00''"
       "''random_seed__42__2019-03-07-09-05-59''" ?t' folder' file']
      make_run_name_example by blast
  then show ?thesis using r make_run_name_example by blast
qed

section \<open>Properties of \<open>get_arguments\<close>\<close>

lemma add_argument_Inr_iff:
  "add_argument parser act = Inr p \<longleftrightarrow>
     set (option_strings act) \<inter> set (concat (map option_strings parser)) = {} \<and> p = parser @ [act]"
  by (auto simp: add_argument_def)

lemma registered_of_Cons:
  "registered_of ((n, v, a) # T) = (if v = NoneV then a # registered_of T else registered_of T)"
  by (simp add: registered_of_def)

lemma passed_of_Cons:
  "passed_of ((n, v, a) # T) = (if v = NoneV then passed_of T else insert n (passed_of T))"
  by (force simp: passed_of_def)

lemma collect_arguments_frame:
  assumes "collect_arguments T (args, parser) = Inr (args', parser')"
  shows "parser' = parser @ registered_of T \<and>
         (\<forall>k. k \<notin> passed_of T \<longrightarrow> args' k = args k) \<and>
         (\<forall>k. k \<in> passed_of T \<longrightarrow> args' k \<noteq> None)"
  using assms
proof (induction T arbitrary: args parser)
  case Nil
  then show ?case by (simp add: registered_of_def passed_of_def)
next
  case (Cons t T)
  obtain n v a where t: "t = (n, v, a)" by (cases t) auto
  show ?case
  proof (cases "v = NoneV")
    case True
    then obtain p1 where p1: "add_argument parser a = Inr p1"
      and run: "collect_arguments T (args, p1) = Inr (args', parser')"
      using Cons.prems t by (auto simp: bind_err_Inr_iff)
    have "p1 = parser @ [a]" using p1 by (simp add: add_argument_Inr_iff)
    then show ?thesis using Cons.IH [OF run] True t
      by (simp add: registered_of_Cons passed_of_Cons)
  next
    case False
    then have run: "collect_arguments T (args(n \<mapsto> v), parser) = Inr (args', parser')"
      using Cons.prems t by simp
    show ?thesis using Cons.IH [OF run] False t
      by (cases "n \<in> passed_of T") (auto simp: registered_of_Cons passed_of_Cons)
  qed
qed

lemma collect_arguments_ok:
  assumes "distinct (concat (map option_strings parser) @ concat (map (\<lambda>t. option_strings (snd (snd t))) T))"
  shows "\<exists>st. collect_arguments T (args, parser) = Inr st"
  using assms
proof (induction T arbitrary: args parser)
  case Nil
  then show ?case by simp
next
  case (Cons t T)
  obtain n v a where t: "t = (n, v, a)" by (cases t) auto
  let ?P = "concat (map option_strings parser)"
  let ?FT = "concat (map (\<lambda>t. option_strings (snd (snd t))) T)"
  have d: "distinct (?P @ option_strings a @ ?FT)" using Cons.prems t by simp
  show ?case
  proof (cases "v = NoneV")
    case True
    have "set (option_strings a) \<inter> set ?P = {}" using d by auto
    then have add: "add_argument parser a = Inr (parser @ [a])"
      by (simp add: add_argument_Inr_iff)
    have "distinct (concat (map option_strings (parser @ [a])) @ ?FT)" using d by simp
    from Cons.IH [OF this, of args] show ?thesis using True t add by (simp add: bind_err_def)
  next
    case False
    have step: "collect_arguments (t # T) (args, parser) = collect_arguments T (args(n \<mapsto> v), parser)"
      using False t by simp
    have "distinct (?P @ ?FT)" using d by auto
    from Cons.IH [OF this, of "args(n \<mapsto> v)"] show ?thesis unfolding step .
  qed
qed

lemma collect_arguments_value:
  assumes "collect_arguments T (args, parser) = Inr (args', parser')"
    and "distinct (map fst T)" and "(n, v, a) \<in> set T" and "v \<noteq> NoneV"
  shows "args' n = Some v"
  using assms
proof (induction T arbitrary: args parser)
  case Nil
  then show ?case by simp
next
  case (Cons t T)
  obtain n0 v0 a0 where t: "t = (n0, v0, a0)" by (cases t) auto
  have dT: "distinct (map fst T)" using Cons.prems by simp
  show ?case
  proof (cases "v0 = NoneV")
    case True
    then obtain p1 where "collect_arguments T (args, p1) = Inr (args', parser')"
      using Cons.prems(1) t by (auto simp: bind_err_Inr_iff)
    moreover have "(n, v, a) \<in> set T" using Cons.prems True t by auto
    ultimately show ?thesis using Cons.IH dT Cons.prems(4) by blast
  next
    case False
    then have run: "collect_arguments T (args(n0 \<mapsto> v0), parser) = Inr (args', parser')"
      using Cons.prems(1) t by simp
    show ?thesis
    proof (cases "(n, v, a) \<in> set T")
      case True
      show ?thesis using Cons.IH [OF run dT True Cons.prems(4)] .
    next
      case False
      then have eq: "n0 = n" "v0 = v" using Cons.prems(3) t by auto
      have "n \<notin> fst ` set T" using Cons.prems(2) t eq by auto
      then have "n \<notin> passed_of T" by (auto simp: passed_of_def)
      then have "args' n = (args(n0 \<mapsto> v0)) n"
        using collect_arguments_frame [OF run] by blast
      then show ?thesis using eq by simp
    qed
  qed
qed

text \<open>The hyperparameter loop.\<close>

lemma collect_hyperparams_Inr_iff:
  "collect_hyperparams hps kw (args, parser) = Inr st \<longleftrightarrow>
     (\<forall>h \<in> set (unsupplied kw hps). flag_dest (''--'' @ hp_name h) \<noteq> []) \<and>
     distinct (map hp_name (unsupplied kw hps)) \<and>
     (\<forall>h \<in> set (unsupplied kw hps). ''--'' @ hp_name h \<notin> set (concat (map option_strings parser))) \<and>
     st = ((\<lambda>k. if k \<in> hp_name ` set hps \<and> kw k \<noteq> None then kw k else args k),
           parser @ map hp_action (unsupplied kw hps))"
proof (induction hps arbitrary: args parser)
  case Nil
  then show ?case by (auto simp: unsupplied_def)
next
  case (Cons h hps)
  show ?case
  proof (cases "kw (hp_name h)")
    case (Some v)
    have u: "unsupplied kw (h # hps) = unsupplied kw hps" using Some by (simp add: unsupplied_def)
    have eq: "(\<lambda>k. if k \<in> hp_name ` set hps \<and> kw k \<noteq> None then kw k else (args(hp_name h \<mapsto> v)) k)
        = (\<lambda>k. if k \<in> hp_name ` set (h # hps) \<and> kw k \<noteq> None then kw k else args k)"
      using Some by auto
    have step: "collect_hyperparams (h # hps) kw (args, parser)
        = collect_hyperparams hps kw (args(hp_name h \<mapsto> v), parser)"
      using Some by simp
    show ?thesis unfolding step u Cons.IH [of "args(hp_name h \<mapsto> v)" parser] eq ..
  next
    case None
    have u: "unsupplied kw (h # hps) = h # unsupplied kw hps" using None by (simp add: unsupplied_def)
    have args_eq: "(\<lambda>k. if k \<in> hp_name ` set hps \<and> kw k \<noteq> None then kw k else args k)
        = (\<lambda>k. if k \<in> hp_name ` set (h # hps) \<and> kw k \<noteq> None then kw k else args k)"
      using None by (intro ext) auto
    have os: "option_strings (hp_action h) = [''--'' @ hp_name h]" by (simp add: hp_action_def)
    show ?thesis
    proof (cases "flag_dest (''--'' @ hp_name h) = []")
      case True
      then show ?thesis using None u by auto
    next
      case False
      show ?thesis
      proof (cases "''--'' @ hp_name h \<in> set (concat (map option_strings parser))")
        case True
        then have "add_argument parser (hp_action h) = Inl ArgumentError"
          using os by (auto simp: add_argument_def)
        then show ?thesis using None False True u by (auto simp: bind_err_def)
      next
        case nin: False
        then have add: "add_argument parser (hp_action h) = Inr (parser @ [hp_action h])"
          using os by (auto simp: add_argument_def)
        have "(\<forall>x \<in> set (unsupplied kw hps). ''--'' @ hp_name x \<notin> set (concat (map option_strings (parser @ [hp_action h]))))
            \<longleftrightarrow> (\<forall>x \<in> set (unsupplied kw hps). ''--'' @ hp_name x \<notin> set (concat (map option_strings parser)))
                \<and> hp_name h \<notin> set (map hp_name (unsupplied kw hps))"
          using os by (auto simp: image_iff)
        then show ?thesis
          using None False nin u add Cons.IH [of args "parser @ [hp_action h]"] args_eq
          by (auto simp: bind_err_def)
      qed
    qed
  qed
qed

text \<open>The namespace that parsing builds.\<close>

lemma find_action_Some: "find_action parser flag = Some a \<Longrightarrow> a \<in> set parser \<and> flag \<in> set (option_strings a)"
  unfolding find_action_def by (auto simp: find_Some_iff)

lemma find_action_None_iff:
  "find_action parser flag = None \<longleftrightarrow> flag \<notin> set (concat (map option_strings parser))"
  unfolding find_action_def by (auto simp: find_None_iff)

lemma store_positionals_Cons:
  "store_positionals ((a, v) # ps) ns = store_positionals ps (ns(dest a \<mapsto> v))"
  by simp

lemma store_positionals_other:
  "k \<notin> dest ` fst ` set ps \<Longrightarrow> store_positionals ps ns k = ns k"
proof (induction ps arbitrary: ns)
  case Nil
  then show ?case by simp
next
  case (Cons p ps)
  obtain a v where p: "p = (a, v)" by (cases p) auto
  have k: "k \<notin> dest ` fst ` set ps" and ne: "dest a \<noteq> k" using Cons.prems p by auto
  have "store_positionals ps (ns(dest a \<mapsto> v)) k = (ns(dest a \<mapsto> v)) k"
    by (rule Cons.IH [OF k])
  also have "\<dots> = ns k" using ne by simp
  finally show ?case unfolding p store_positionals_Cons .
qed


lemma store_positionals_dom_upper:
  "dom (store_positionals ps ns) \<subseteq> dom ns \<union> dest ` fst ` set ps"
proof (induction ps arbitrary: ns)
  case Nil
  then show ?case by simp
next
  case (Cons p ps)
  obtain a v where p: "p = (a, v)" by (cases p) auto
  have "dom (store_positionals ps (ns(dest a \<mapsto> v))) \<subseteq> dom (ns(dest a \<mapsto> v)) \<union> dest ` fst ` set ps"
    by (rule Cons.IH)
  also have "\<dots> \<subseteq> dom ns \<union> dest ` fst ` set ((a, v) # ps)" by auto
  finally show ?case unfolding p store_positionals_Cons .
qed

lemma store_options_other:
  assumes "\<forall>flag \<in> fst ` set opts. \<forall>a \<in> set parser. flag \<in> set (option_strings a) \<longrightarrow> dest a \<noteq> k"
  shows "store_options parser opts ns k = ns k"
  using assms
proof (induction opts arbitrary: ns)
  case Nil
  then show ?case by simp
next
  case (Cons fv rest)
  obtain flag v where fv: "fv = (flag, v)" by (cases fv) auto
  have rest: "\<forall>flag \<in> fst ` set rest. \<forall>a \<in> set parser. flag \<in> set (option_strings a) \<longrightarrow> dest a \<noteq> k"
    using Cons.prems by auto
  note IH = Cons.IH [OF rest]
  show ?case
  proof (cases "find_action parser flag")
    case None
    then show ?thesis using IH fv by simp
  next
    case (Some a)
    then have "dest a \<noteq> k" using find_action_Some [OF Some] Cons.prems fv by auto
    then show ?thesis using Some IH fv by (cases "action_kind a") simp_all
  qed
qed


lemma store_options_dom_upper:
  "dom (store_options parser opts ns) \<subseteq> dom ns \<union> dest ` {a \<in> set parser. action_kind a \<noteq> Help}"
proof (induction opts arbitrary: ns)
  case Nil
  then show ?case by simp
next
  case (Cons fv rest)
  obtain flag v where fv: "fv = (flag, v)" by (cases fv) auto
  let ?D = "dest ` {a \<in> set parser. action_kind a \<noteq> Help}"
  show ?case
  proof (cases "find_action parser flag")
    case None
    then show ?thesis using Cons.IH fv by simp
  next
    case (Some a)
    have mem: "a \<in> set parser" using find_action_Some [OF Some] by blast
    show ?thesis
    proof (cases "action_kind a = Help")
      case True
      then show ?thesis using Some Cons.IH [of ns] fv by simp
    next
      case False
      then have "dest a \<in> ?D" using mem by blast
      then have "dom (ns(dest a \<mapsto> w)) \<subseteq> dom ns \<union> ?D" for w by auto
      then have "dom (store_options parser rest (ns(dest a \<mapsto> w))) \<subseteq> dom ns \<union> ?D" for w
        using Cons.IH [of "ns(dest a \<mapsto> w)"] by blast
      then show ?thesis using Some False fv by (cases "action_kind a") simp_all
    qed
  qed
qed

lemma initial_namespace_Cons_None:
  "default_value a = None \<Longrightarrow> initial_namespace (a # parser) = initial_namespace parser"
  unfolding initial_namespace_def by (simp add: List.map_filter_simps)

lemma initial_namespace_Cons_Some:
  "default_value a = Some d \<Longrightarrow> initial_namespace (a # parser) = (initial_namespace parser)(dest a \<mapsto> d)"
  unfolding initial_namespace_def by (simp add: List.map_filter_simps)

lemma initial_namespace_dom:
  "dom (initial_namespace parser) = dest ` {a \<in> set parser. default_value a \<noteq> None}"
proof (induction parser)
  case Nil
  then show ?case by (simp add: initial_namespace_def List.map_filter_simps)
next
  case (Cons a parser)
  show ?case
  proof (cases "default_value a")
    case None
    then have "{b \<in> set (a # parser). default_value b \<noteq> None} = {b \<in> set parser. default_value b \<noteq> None}"
      by auto
    then show ?thesis using Cons by (simp add: initial_namespace_Cons_None [OF None])
  next
    case (Some d)
    then have sets: "{b \<in> set (a # parser). default_value b \<noteq> None} = insert a {b \<in> set parser. default_value b \<noteq> None}"
      by auto
    have "dom (initial_namespace (a # parser)) = dom ((initial_namespace parser)(dest a \<mapsto> d))"
      by (simp only: initial_namespace_Cons_Some [OF Some])
    also have "\<dots> = insert (dest a) (dom (initial_namespace parser))" by simp
    also have "\<dots> = insert (dest a) (dest ` {b \<in> set parser. default_value b \<noteq> None})"
      by (simp only: Cons)
    also have "\<dots> = dest ` {b \<in> set (a # parser). default_value b \<noteq> None}"
      unfolding sets by simp
    finally show ?thesis .
  qed
qed

lemma initial_namespace_first:
  assumes "\<forall>b \<in> set xs. dest b \<noteq> k \<or> default_value b = None"
    and "dest a = k" and "default_value a = Some d"
  shows "initial_namespace (xs @ a # ys) k = Some d"
  using assms
proof (induction xs)
  case Nil
  then show ?case by (simp add: initial_namespace_Cons_Some)
next
  case (Cons b xs)
  then have IH: "initial_namespace (xs @ a # ys) k = Some d" by simp
  show ?case
  proof (cases "default_value b")
    case None
    then show ?thesis using IH by (simp add: initial_namespace_Cons_None)
  next
    case (Some e)
    then have "dest b \<noteq> k" using Cons.prems by auto
    then show ?thesis using IH Some by (simp add: initial_namespace_Cons_Some)
  qed
qed

text \<open>The conversion of the defaults.\<close>

lemma default_in_place_iff:
  "default_in_place a ns \<longleftrightarrow>
     (\<exists>text. default_value a = Some (StrV text) \<and> ns (dest a) = Some (StrV text))"
  by (auto simp: default_in_place_def split: option.splits pyval.splits)

lemma convert_defaults_skip:
  "given a \<or> required a \<or> \<not> default_in_place a ns \<Longrightarrow>
   convert_defaults given (a # rest) ns = convert_defaults given rest ns"
  by auto

lemma convert_defaults_convert:
  "\<not> given a \<Longrightarrow> \<not> required a \<Longrightarrow> default_in_place a ns \<Longrightarrow>
   convert_defaults given (a # rest) ns =
     (case converted_default a of
        None \<Rightarrow> Inl (UsageError InvalidValue)
      | Some v \<Rightarrow> convert_defaults given rest (ns(dest a \<mapsto> v)))"
  by simp

lemma convert_defaults_step:
  assumes "convert_defaults given (a # rest) ns = Inr ns'"
  shows "(\<not> given a \<and> \<not> required a \<and> default_in_place a ns \<and>
          (\<exists>v. converted_default a = Some v \<and> convert_defaults given rest (ns(dest a \<mapsto> v)) = Inr ns'))
       \<or> (\<not> (\<not> given a \<and> \<not> required a \<and> default_in_place a ns) \<and>
          convert_defaults given rest ns = Inr ns')"
  using assms by (auto split: option.splits if_splits)

declare convert_defaults.simps(2) [simp del]

lemma convert_defaults_dom:
  "convert_defaults given acts ns = Inr ns' \<Longrightarrow> dom ns' = dom ns"
proof (induction acts arbitrary: ns)
  case Nil
  then show ?case by simp
next
  case (Cons a acts)
  from convert_defaults_step [OF Cons.prems] show ?case
  proof (elim disjE conjE exE)
    fix v
    assume d: "default_in_place a ns" and run: "convert_defaults given acts (ns(dest a \<mapsto> v)) = Inr ns'"
    have mem: "dest a \<in> dom ns" using d by (auto simp: default_in_place_iff)
    have "dom ns' = dom (ns(dest a \<mapsto> v))" by (rule Cons.IH [OF run])
    also have "\<dots> = dom ns" using mem by auto
    finally show ?thesis .
  next
    assume "convert_defaults given acts ns = Inr ns'"
    then show ?thesis by (rule Cons.IH)
  qed
qed

lemma convert_defaults_keep:
  "convert_defaults given acts ns = Inr ns' \<Longrightarrow> ns k = Some v \<Longrightarrow> \<forall>text. v \<noteq> StrV text \<Longrightarrow>
   ns' k = Some v"
proof (induction acts arbitrary: ns)
  case Nil
  then show ?case by simp
next
  case (Cons a acts)
  from convert_defaults_step [OF Cons.prems(1)] show ?case
  proof (elim disjE conjE exE)
    fix w
    assume d: "default_in_place a ns" and run: "convert_defaults given acts (ns(dest a \<mapsto> w)) = Inr ns'"
    have "dest a \<noteq> k" using d Cons.prems(2,3) by (auto simp: default_in_place_iff)
    then have "(ns(dest a \<mapsto> w)) k = Some v" using Cons.prems(2) by simp
    then show ?thesis using Cons.IH [OF run] Cons.prems(3) by blast
  next
    assume "convert_defaults given acts ns = Inr ns'"
    then show ?thesis using Cons.IH Cons.prems(2,3) by blast
  qed
qed



lemma convert_defaults_ok:
  "\<forall>a \<in> set acts. (\<exists>text. default_value a = Some (StrV text)) \<longrightarrow> converted_default a \<noteq> None \<Longrightarrow>
   \<exists>ns'. convert_defaults given acts ns = Inr ns'"
proof (induction acts arbitrary: ns)
  case Nil
  then show ?case by simp
next
  case (Cons a acts)
  have rest: "\<forall>b \<in> set acts. (\<exists>text. default_value b = Some (StrV text)) \<longrightarrow> converted_default b \<noteq> None"
    using Cons.prems by simp
  show ?case
  proof (cases "\<not> given a \<and> \<not> required a \<and> default_in_place a ns")
    case True
    then have "\<exists>text. default_value a = Some (StrV text)" by (auto simp: default_in_place_iff)
    then obtain v where v: "converted_default a = Some v" using Cons.prems by auto
    have eq: "convert_defaults given (a # acts) ns = convert_defaults given acts (ns(dest a \<mapsto> v))"
      using True v by (simp add: convert_defaults_convert)
    show ?thesis unfolding eq by (rule Cons.IH [OF rest])
  next
    case False
    then have eq: "convert_defaults given (a # acts) ns = convert_defaults given acts ns"
      by (intro convert_defaults_skip) blast
    show ?thesis unfolding eq by (rule Cons.IH [OF rest])
  qed
qed

text \<open>
  Two runs of the conversion on namespaces that agree except at one key, where the second
  holds a value that is not a string: the second run converts nothing that the first does
  not, so it succeeds when the first does.
\<close>

lemma convert_defaults_mono:
  assumes "convert_defaults g1 acts ns1 = Inr r1"
    and "\<forall>k'. k' \<noteq> k \<longrightarrow> ns1 k' = ns2 k'"
    and "ns1 k = ns2 k \<or> (\<exists>v. ns2 k = Some v \<and> (\<forall>text. v \<noteq> StrV text))"
    and "\<forall>a \<in> set acts. (\<exists>text. default_value a = Some (StrV text)) \<longrightarrow> g1 a = g2 a"
  shows "\<exists>r2. convert_defaults g2 acts ns2 = Inr r2"
  using assms
proof (induction acts arbitrary: ns1 ns2 r1)
  case Nil
  then show ?case by simp
next
  case (Cons a acts)
  have rest: "\<forall>b \<in> set acts. (\<exists>text. default_value b = Some (StrV text)) \<longrightarrow> g1 b = g2 b"
    using Cons.prems(4) by simp
  let ?c1 = "\<not> g1 a \<and> \<not> required a \<and> default_in_place a ns1"
  let ?c2 = "\<not> g2 a \<and> \<not> required a \<and> default_in_place a ns2"
  have same: "?c1 \<and> ns1 (dest a) = ns2 (dest a)" if c2: "?c2"
  proof -
    from c2 obtain s where t: "default_value a = Some (StrV s)" "ns2 (dest a) = Some (StrV s)"
      by (auto simp: default_in_place_iff)
    have g: "g1 a = g2 a" using Cons.prems(4) t(1) by simp
    have eq: "ns1 (dest a) = ns2 (dest a)"
    proof (cases "dest a = k")
      case True
      then show ?thesis using Cons.prems(3) t(2) by auto
    next
      case False
      then show ?thesis using Cons.prems(2) by simp
    qed
    then have "default_in_place a ns1" using t by (simp add: default_in_place_iff)
    then show ?thesis using c2 g eq by simp
  qed
  show ?case
  proof (cases ?c2)
    case True
    note s = same [OF True]
    from convert_defaults_step [OF Cons.prems(1)] s
    obtain v where v: "converted_default a = Some v"
      and run: "convert_defaults g1 acts (ns1(dest a \<mapsto> v)) = Inr r1"
      by auto
    have off: "\<forall>k'. k' \<noteq> k \<longrightarrow> (ns1(dest a \<mapsto> v)) k' = (ns2(dest a \<mapsto> v)) k'"
      using Cons.prems(2) by simp
    have atk: "(ns1(dest a \<mapsto> v)) k = (ns2(dest a \<mapsto> v)) k \<or>
        (\<exists>w. (ns2(dest a \<mapsto> v)) k = Some w \<and> (\<forall>text. w \<noteq> StrV text))"
      using Cons.prems(3) by (cases "dest a = k") auto
    have eq: "convert_defaults g2 (a # acts) ns2 = convert_defaults g2 acts (ns2(dest a \<mapsto> v))"
      using True v by (simp add: convert_defaults_convert)
    show ?thesis unfolding eq by (rule Cons.IH [OF run off atk rest])
  next
    case c2: False
    then have skip: "convert_defaults g2 (a # acts) ns2 = convert_defaults g2 acts ns2"
      by (intro convert_defaults_skip) blast
    show ?thesis
    proof (cases ?c1)
      case True
      from convert_defaults_step [OF Cons.prems(1)] True
      obtain v where v: "converted_default a = Some v"
        and run: "convert_defaults g1 acts (ns1(dest a \<mapsto> v)) = Inr r1"
        by auto
      from True obtain s where t: "default_value a = Some (StrV s)" "ns1 (dest a) = Some (StrV s)"
        by (auto simp: default_in_place_iff)
      have g: "g1 a = g2 a" using Cons.prems(4) t(1) by simp
      have "\<not> default_in_place a ns2" using c2 True g by simp
      then have ne: "ns1 (dest a) \<noteq> ns2 (dest a)" using t by (auto simp: default_in_place_iff)
      then have d: "dest a = k" using Cons.prems(2) by auto
      have off: "\<forall>k'. k' \<noteq> k \<longrightarrow> (ns1(dest a \<mapsto> v)) k' = ns2 k'"
        using Cons.prems(2) d by simp
      have atk: "(ns1(dest a \<mapsto> v)) k = ns2 k \<or> (\<exists>w. ns2 k = Some w \<and> (\<forall>text. w \<noteq> StrV text))"
        using Cons.prems(3) ne d by auto
      show ?thesis unfolding skip by (rule Cons.IH [OF run off atk rest])
    next
      case False
      then have "convert_defaults g1 (a # acts) ns1 = convert_defaults g1 acts ns1"
        by (intro convert_defaults_skip) blast
      then have run: "convert_defaults g1 acts ns1 = Inr r1" using Cons.prems(1) by simp
      show ?thesis unfolding skip by (rule Cons.IH [OF run Cons.prems(2,3) rest])
    qed
  qed
qed


lemma consumed_dom_upper:
  "dom (consumed P argv) \<subseteq>
     dest ` {a \<in> set P. default_value a \<noteq> None \<or> action_kind a \<noteq> Help \<or> option_strings a = []}"
proof
  fix k
  assume k: "k \<in> dom (consumed P argv)"
  let ?Z = "zip (filter (\<lambda>b. option_strings b = []) P) (positionals argv)"
  let ?ns1 = "store_positionals ?Z (initial_namespace P)"
  have "k \<in> dom ?ns1 \<or> k \<in> dest ` {a \<in> set P. action_kind a \<noteq> Help}"
    using k store_options_dom_upper [of P "options argv" ?ns1] unfolding consumed_def by auto
  moreover have "k \<in> dom (initial_namespace P) \<or> k \<in> dest ` fst ` set ?Z" if "k \<in> dom ?ns1"
    using that store_positionals_dom_upper [of ?Z "initial_namespace P"] by auto
  moreover have "k \<in> dest ` {a \<in> set P. option_strings a = []}" if "k \<in> dest ` fst ` set ?Z"
  proof -
    from that obtain a v where "(a, v) \<in> set ?Z" "k = dest a" by auto
    then have "a \<in> set (filter (\<lambda>b. option_strings b = []) P)" by (auto dest: set_zip_leftD)
    then show ?thesis using \<open>k = dest a\<close> by auto
  qed
  moreover have "k \<in> dest ` {a \<in> set P. default_value a \<noteq> None}" if "k \<in> dom (initial_namespace P)"
    using that by (simp add: initial_namespace_dom)
  ultimately show "k \<in> dest ` {a \<in> set P. default_value a \<noteq> None \<or> action_kind a \<noteq> Help \<or> option_strings a = []}"
    by blast
qed

lemma store_options_agree:
  assumes "\<forall>k'. k' \<noteq> k \<longrightarrow> m1 k' = m2 k'"
  shows "(\<forall>k'. k' \<noteq> k \<longrightarrow> store_options P opts m1 k' = store_options P opts m2 k') \<and>
         (store_options P opts m1 k = store_options P opts m2 k \<or> store_options P opts m2 k = m2 k)"
  using assms
proof (induction opts arbitrary: m1 m2)
  case Nil
  then show ?case by simp
next
  case (Cons fv rest)
  obtain flag v where fv: "fv = (flag, v)" by (cases fv) auto
  show ?case
  proof (cases "find_action P flag")
    case None
    then show ?thesis using Cons.IH [OF Cons.prems] fv by simp
  next
    case (Some a)
    have upd: "(\<forall>k'. k' \<noteq> k \<longrightarrow> store_options P rest (m1(dest a \<mapsto> w)) k' = store_options P rest (m2(dest a \<mapsto> w)) k') \<and>
         (store_options P rest (m1(dest a \<mapsto> w)) k = store_options P rest (m2(dest a \<mapsto> w)) k \<or>
          store_options P rest (m2(dest a \<mapsto> w)) k = m2 k)" for w
    proof (cases "dest a = k")
      case True
      have "m1(dest a \<mapsto> w) = m2(dest a \<mapsto> w)"
        using Cons.prems True by (intro ext) simp
      then show ?thesis by simp
    next
      case False
      have off: "\<forall>k'. k' \<noteq> k \<longrightarrow> (m1(dest a \<mapsto> w)) k' = (m2(dest a \<mapsto> w)) k'"
        using Cons.prems by simp
      have e: "(m2(dest a \<mapsto> w)) k = m2 k" using False by simp
      from Cons.IH [OF off] show ?thesis unfolding e .
    qed
    show ?thesis
    proof (cases "action_kind a")
      case Store
      then show ?thesis using Some fv upd [of v] by simp
    next
      case (StoreConst c)
      then show ?thesis using Some fv upd [of c] by simp
    next
      case Help
      then show ?thesis using Some fv Cons.IH [OF Cons.prems] by simp
    qed
  qed
qed


lemma parse_args_Inr_iff:
  "parse_args parser argv = Inr ns \<longleftrightarrow>
     \<not> (\<exists>flag \<in> set (map fst (options argv)).
           \<exists>a \<in> set parser. flag \<in> set (option_strings a) \<and> action_kind a = Help) \<and>
     convert_defaults (seen parser argv) parser (consumed parser argv) = Inr ns \<and>
     \<not> (\<exists>a \<in> set parser. required a \<and> \<not> seen parser argv a) \<and>
     \<not> (length (filter (\<lambda>b. option_strings b = []) parser) < length (positionals argv)
        \<or> (\<exists>flag \<in> set (map fst (options argv)). find_action parser flag = None))"
  unfolding parse_args_def by (auto split: sum.splits)

text \<open>The resolver as a whole.\<close>

lemma builtin_flags_distinct:
  "distinct (concat (map option_strings ArgumentParser) @
             concat (map (\<lambda>t. option_strings (snd (snd t))) (builtin_arguments c)))"
  by (simp add: builtin_arguments_def ArgumentParser_def)

lemma builtin_names_distinct: "distinct (map fst (builtin_arguments c))"
  by (simp add: builtin_arguments_def)

lemma builtin_actions:
  "(n, v, a) \<in> set (builtin_arguments c) \<Longrightarrow>
     dest a = n \<and> default_value a \<noteq> None \<and> action_kind a \<noteq> Help \<and> n \<noteq> ''help''"
  by (auto simp: builtin_arguments_def)

lemma collect_builtin:
  "\<exists>args1. collect_arguments (builtin_arguments c) (Map.empty, ArgumentParser)
      = Inr (args1, ArgumentParser @ registered_of (builtin_arguments c)) \<and>
     (\<forall>k. k \<notin> passed_of (builtin_arguments c) \<longrightarrow> args1 k = None) \<and>
     (\<forall>n v a. (n, v, a) \<in> set (builtin_arguments c) \<and> v \<noteq> NoneV \<longrightarrow> args1 n = Some v)"
proof -
  obtain args1 p1 where run: "collect_arguments (builtin_arguments c) (Map.empty, ArgumentParser) = Inr (args1, p1)"
    using collect_arguments_ok [OF builtin_flags_distinct, of c Map.empty] by (metis surj_pair)
  note fr = collect_arguments_frame [OF run]
  have "args1 n = Some v" if "(n, v, a) \<in> set (builtin_arguments c)" "v \<noteq> NoneV" for n v a
    using collect_arguments_value [OF run builtin_names_distinct that] .
  then show ?thesis using run fr by auto
qed

lemma get_arguments_Inr_iff:
  "get_arguments c argv = Inr args \<longleftrightarrow>
     hp_registrable c \<and>
     (\<exists>args1 ns.
        collect_arguments (builtin_arguments c) (Map.empty, ArgumentParser)
          = Inr (args1, ArgumentParser @ registered_of (builtin_arguments c)) \<and>
        parse_args (final_parser c) argv = Inr ns \<and>
        args = (\<lambda>k. if k \<in> hp_name ` set (hyperparams c) \<and> optimizer_hyperparams c k \<noteq> None
                     then optimizer_hyperparams c k else args1 k) ++ ns)"
proof -
  let ?kw = "optimizer_hyperparams c"
  let ?P1 = "ArgumentParser @ registered_of (builtin_arguments c)"
  obtain args1 where run: "collect_arguments (builtin_arguments c) (Map.empty, ArgumentParser) = Inr (args1, ?P1)"
    using collect_builtin [of c] by blast
  let ?args2 = "\<lambda>k. if k \<in> hp_name ` set (hyperparams c) \<and> ?kw k \<noteq> None then ?kw k else args1 k"
  let ?st2 = "(?args2, ?P1 @ map hp_action (unsupplied ?kw (hyperparams c)))"
  have hp: "collect_hyperparams (hyperparams c) ?kw (args1, ?P1) = Inr st \<longleftrightarrow> hp_registrable c \<and> st = ?st2" for st
    unfolding collect_hyperparams_Inr_iff hp_registrable_def by blast
  have fp: "final_parser c = ?P1 @ map hp_action (unsupplied ?kw (hyperparams c))"
    by (simp add: final_parser_def)
  have "get_arguments c argv = Inr args \<longleftrightarrow>
      (\<exists>st. collect_hyperparams (hyperparams c) ?kw (args1, ?P1) = Inr st \<and>
         (case st of (a, p) \<Rightarrow> bind_err (parse_args p argv) (\<lambda>ns. Inr (a ++ ns))) = Inr args)"
    unfolding get_arguments_def run by (simp add: bind_err_Inr_iff)
  also have "\<dots> \<longleftrightarrow> hp_registrable c \<and>
      (case ?st2 of (a, p) \<Rightarrow> bind_err (parse_args p argv) (\<lambda>ns. Inr (a ++ ns))) = Inr args"
    unfolding hp by blast
  also have "\<dots> \<longleftrightarrow> hp_registrable c \<and> (\<exists>ns. parse_args (final_parser c) argv = Inr ns \<and> args = ?args2 ++ ns)"
    unfolding fp by (auto simp: bind_err_Inr_iff)
  finally show ?thesis using run by auto
qed

lemma registered_of_subset:
  "a \<in> set (registered_of T) \<Longrightarrow> \<exists>n. (n, NoneV, a) \<in> set T"
  by (force simp: registered_of_def)

lemma registered_of_member:
  "(n, NoneV, a) \<in> set T \<Longrightarrow> a \<in> set (registered_of T)"
  by (force simp: registered_of_def)

lemma registered_of_append: "registered_of (xs @ ys) = registered_of xs @ registered_of ys"
  by (simp add: registered_of_def)

lemma final_parser_cases:
  assumes "a \<in> set (final_parser c)"
  shows "a \<in> set ArgumentParser \<or> (\<exists>n. (n, NoneV, a) \<in> set (builtin_arguments c)) \<or>
         (\<exists>h \<in> set (unsupplied (optimizer_hyperparams c) (hyperparams c)). a = hp_action h)"
  using assms registered_of_subset by (auto simp: final_parser_def)

lemma parse_args_dom:
  assumes "parse_args P argv = Inr ns"
  shows "dom ns = dom (consumed P argv)"
  using assms convert_defaults_dom unfolding parse_args_Inr_iff by blast


lemma parse_args_dom_upper:
  assumes "parse_args P argv = Inr ns"
  shows "dom ns \<subseteq> dest ` {a \<in> set P. default_value a \<noteq> None \<or> action_kind a \<noteq> Help \<or> option_strings a = []}"
  unfolding parse_args_dom [OF assms] by (rule consumed_dom_upper)

lemma help_only:
  "a \<in> set (final_parser c) \<Longrightarrow> action_kind a = Help \<longleftrightarrow> a \<in> set ArgumentParser"
  using final_parser_cases [of a c] builtin_actions [of _ NoneV a c]
  by (auto simp: ArgumentParser_def hp_action_def)

lemma final_parser_dests:
  assumes "a \<in> set (final_parser c)"
    and "default_value a \<noteq> None \<or> action_kind a \<noteq> Help \<or> option_strings a = []"
  shows "(\<exists>n. (n, NoneV, a) \<in> set (builtin_arguments c) \<and> dest a = n) \<or>
         (\<exists>h \<in> set (unsupplied (optimizer_hyperparams c) (hyperparams c)).
            dest a = flag_dest (''--'' @ hp_name h))"
  using final_parser_cases [OF assms(1)] assms(2) builtin_actions [of _ NoneV a c]
  by (auto simp: ArgumentParser_def hp_action_def)


lemma builtin_random_seed_split:
  "builtin_arguments c =
     take 7 (builtin_arguments c) @
     (''random_seed'', random_seed c,
        \<lparr>option_strings = [''-r'', ''--random_seed''], dest = ''random_seed'', action_kind = Store,
         required = False, default_value = Some (IntV 42), converted_default = None\<rparr>) # drop 8 (builtin_arguments c)"
  by (simp add: builtin_arguments_def)

lemma builtin_before_random_seed:
  "(n, v, a) \<in> set (take 7 (builtin_arguments c)) \<Longrightarrow> dest a \<noteq> ''random_seed''"
  by (auto simp: builtin_arguments_def)

lemma random_seed_flags:
  assumes "a \<in> set (final_parser c)" "dest a = ''random_seed''" "flag \<in> set (option_strings a)"
  shows "flag = ''-r'' \<or> flag_dest flag = ''random_seed''"
proof -
  have fd: "flag_dest ''--random_seed'' = ''random_seed''" by (simp add: flag_dest_def)
  from final_parser_cases [OF assms(1)] show ?thesis
  proof (elim disjE exE bexE)
    assume "a \<in> set ArgumentParser"
    then show ?thesis using assms(2) by (simp add: ArgumentParser_def)
  next
    fix n assume "(n, NoneV, a) \<in> set (builtin_arguments c)"
    then show ?thesis using assms(2,3) fd by (auto simp: builtin_arguments_def)
  next
    fix h assume "a = hp_action h"
    then show ?thesis using assms(2,3) by (simp add: hp_action_def)
  qed
qed

lemma random_seed_not_positional:
  assumes "a \<in> set (final_parser c)" "dest a = ''random_seed''"
  shows "option_strings a \<noteq> []"
  using final_parser_cases [OF assms(1)] assms(2)
  by (auto simp: ArgumentParser_def builtin_arguments_def hp_action_def)

lemma initial_random_seed:
  assumes "random_seed c = NoneV"
  shows "initial_namespace (final_parser c) ''random_seed'' = Some (IntV 42)"
proof -
  let ?a = "\<lparr>option_strings = [''-r'', ''--random_seed''], dest = ''random_seed'', action_kind = Store,
         required = False, default_value = Some (IntV 42), converted_default = None\<rparr>"
  let ?xs = "ArgumentParser @ registered_of (take 7 (builtin_arguments c))"
  let ?ys = "registered_of (drop 8 (builtin_arguments c)) @
      map hp_action (unsupplied (optimizer_hyperparams c) (hyperparams c))"
  have "registered_of (builtin_arguments c)
      = registered_of (take 7 (builtin_arguments c)) @ ?a # registered_of (drop 8 (builtin_arguments c))"
    using assms
    by (subst builtin_random_seed_split) (simp add: registered_of_append registered_of_Cons)
  then have fp: "final_parser c = ?xs @ ?a # ?ys" by (simp add: final_parser_def)
  have "\<forall>b \<in> set ?xs. dest b \<noteq> ''random_seed'' \<or> default_value b = None"
    using registered_of_subset builtin_before_random_seed by (fastforce simp: ArgumentParser_def)
  then show ?thesis unfolding fp by (rule initial_namespace_first) simp_all
qed

lemma positionals_random_seed:
  assumes "random_seed c = NoneV"
  shows "store_positionals (zip (filter (\<lambda>b. option_strings b = []) (final_parser c)) (positionals argv))
           (initial_namespace (final_parser c)) ''random_seed'' = Some (IntV 42)"
proof -
  let ?P = "final_parser c"
  let ?Z = "zip (filter (\<lambda>b. option_strings b = []) ?P) (positionals argv)"
  have "store_positionals ?Z (initial_namespace ?P) ''random_seed'' = initial_namespace ?P ''random_seed''"
  proof (rule store_positionals_other)
    show "''random_seed'' \<notin> dest ` fst ` set ?Z"
    proof
      assume "''random_seed'' \<in> dest ` fst ` set ?Z"
      then obtain a v where "(a, v) \<in> set ?Z" "dest a = ''random_seed''" by force
      then have "a \<in> set ?P" "option_strings a = []" by (auto dest: set_zip_leftD)
      then show False using random_seed_not_positional \<open>dest a = ''random_seed''\<close> by blast
    qed
  qed
  also have "\<dots> = Some (IntV 42)" using assms by (rule initial_random_seed)
  finally show ?thesis .
qed

lemma default_seed:
  assumes "get_arguments c argv = Inr args"
    and "random_seed c = NoneV"
    and "\<forall>flag \<in> fst ` set (options argv). flag \<noteq> ''-r'' \<and> flag_dest flag \<noteq> ''random_seed''"
  shows "args ''random_seed'' = Some (IntV 42)"
proof -
  let ?P = "final_parser c"
  let ?Z = "zip (filter (\<lambda>b. option_strings b = []) ?P) (positionals argv)"
  obtain args2 ns where ns: "parse_args ?P argv = Inr ns" and args: "args = args2 ++ ns"
    using assms(1) unfolding get_arguments_Inr_iff by blast
  have conv: "convert_defaults (seen ?P argv) ?P (consumed ?P argv) = Inr ns"
    using ns unfolding parse_args_Inr_iff by blast
  have "\<forall>flag \<in> fst ` set (options argv). \<forall>a \<in> set ?P.
      flag \<in> set (option_strings a) \<longrightarrow> dest a \<noteq> ''random_seed''"
    using assms(3) random_seed_flags by blast
  then have "consumed ?P argv ''random_seed'' = store_positionals ?Z (initial_namespace ?P) ''random_seed''"
    unfolding consumed_def by (rule store_options_other)
  also have "\<dots> = Some (IntV 42)" using assms(2) by (rule positionals_random_seed)
  finally have "consumed ?P argv ''random_seed'' = Some (IntV 42)" .
  then have "ns ''random_seed'' = Some (IntV 42)"
    using convert_defaults_keep [OF conv] by blast
  then show ?thesis by (simp add: args)
qed




lemma hp_registered:
  "h \<in> set (unsupplied (optimizer_hyperparams c) (hyperparams c)) \<Longrightarrow> hp_action h \<in> set (final_parser c)"
  by (simp add: final_parser_def)

lemma seen_option:
  "option_strings a \<noteq> [] \<Longrightarrow>
   seen P argv a \<longleftrightarrow> (\<exists>flag \<in> set (option_strings a). flag \<in> fst ` set (options argv))"
  by (auto simp: seen_def)




lemma positional_registered:
  "\<forall>t \<in> set T. option_strings (snd (snd t)) \<noteq> [] \<Longrightarrow>
   filter (\<lambda>b. option_strings b = []) (registered_of T) = []"
  by (auto simp: registered_of_def filter_empty_conv)

lemma positional_actions:
  "filter (\<lambda>b. option_strings b = []) (final_parser c) =
     (if testproblem c = NoneV
      then [\<lparr>option_strings = [], dest = ''testproblem'', action_kind = Store,
             required = True, default_value = Some NoneV, converted_default = None\<rparr>]
      else [])"
proof -
  let ?a = "\<lparr>option_strings = [], dest = ''testproblem'', action_kind = Store,
             required = True, default_value = Some NoneV, converted_default = None\<rparr>"
  have split: "builtin_arguments c = (''testproblem'', testproblem c, ?a) # tl (builtin_arguments c)"
    by (simp add: builtin_arguments_def)
  have "\<forall>t \<in> set (tl (builtin_arguments c)). option_strings (snd (snd t)) \<noteq> []"
    by (simp add: builtin_arguments_def)
  then have rest: "filter (\<lambda>b. option_strings b = []) (registered_of (tl (builtin_arguments c))) = []"
    by (rule positional_registered)
  have "filter (\<lambda>b. option_strings b = []) (registered_of (builtin_arguments c))
      = (if testproblem c = NoneV then [?a] else [])"
    by (subst split) (simp add: registered_of_Cons rest)
  moreover have "filter (\<lambda>b. option_strings b = []) (map hp_action U) = []" for U
    by (simp add: filter_empty_conv hp_action_def)
  ultimately show ?thesis by (simp add: final_parser_def ArgumentParser_def)
qed

lemma builtin_flags_not_help:
  "(n, v, a) \<in> set (builtin_arguments c) \<Longrightarrow> ''-h'' \<notin> set (option_strings a) \<and> ''--help'' \<notin> set (option_strings a)"
  by (auto simp: builtin_arguments_def)

lemma builtin_required:
  assumes "(n, v, a) \<in> set (builtin_arguments c)" "required a"
  shows "a = \<lparr>option_strings = [], dest = ''testproblem'', action_kind = Store,
               required = True, default_value = Some NoneV, converted_default = None\<rparr> \<and> n = ''testproblem'' \<and> v = testproblem c
       \<or> option_strings a = [''--batch_size'', ''--bs''] \<and> v = batch_size c
       \<or> option_strings a = [''-N'', ''--num_epochs''] \<and> v = num_epochs c
       \<or> option_strings a = [''--learning_rate'', ''--lr''] \<and> v = learning_rate c"
proof -
  from assms(1) show ?thesis using assms(2)
    unfolding builtin_arguments_def set_simps insert_iff empty_iff
    by (elim disjE) simp_all
qed

lemma builtin_text_default:
  assumes "(n, v, a) \<in> set (builtin_arguments c)" "default_value a = Some (StrV s)"
  shows "converted_default a \<noteq> None"
proof -
  from assms(1) show ?thesis using assms(2)
    unfolding builtin_arguments_def set_simps insert_iff empty_iff
    by (elim disjE) simp_all
qed

lemma hp_action_text_default:
  "default_value (hp_action h) = Some (StrV s) \<longleftrightarrow> hp_default h = Some (StrV s)"
  by (cases "hp_default h") (auto simp: hp_action_def)

lemma hp_action_converted:
  "hp_default h = Some (StrV s) \<Longrightarrow> converted_default (hp_action h) = hp_type h s"
  by (simp add: hp_action_def)

lemma final_parser_converts:
  assumes "defaults_convert c" "a \<in> set (final_parser c)" "default_value a = Some (StrV s)"
  shows "converted_default a \<noteq> None"
  using final_parser_cases [OF assms(2)]
proof (elim disjE exE bexE)
  assume "a \<in> set ArgumentParser"
  then show ?thesis using assms(3) by (simp add: ArgumentParser_def)
next
  fix n assume "(n, NoneV, a) \<in> set (builtin_arguments c)"
  then show ?thesis using assms(3) by (rule builtin_text_default)
next
  fix h assume h: "h \<in> set (unsupplied (optimizer_hyperparams c) (hyperparams c))" "a = hp_action h"
  then have d: "hp_default h = Some (StrV s)" using assms(3) by (simp add: hp_action_text_default)
  then have "hp_type h s \<noteq> None" using assms(1) h(1) unfolding defaults_convert_def by force
  then show ?thesis using h(2) d by (simp add: hp_action_converted)
qed

lemma final_parser_converts_ok:
  assumes "defaults_convert c"
  shows "\<exists>ns. convert_defaults given (final_parser c) ns0 = Inr ns"
proof (rule convert_defaults_ok)
  show "\<forall>a \<in> set (final_parser c). (\<exists>s. default_value a = Some (StrV s)) \<longrightarrow> converted_default a \<noteq> None"
    using final_parser_converts [OF assms] by blast
qed

lemma get_arguments_returns:
  assumes miss: "\<not> missing_required c argv" and reg: "hp_registrable c" and acc: "acceptable c argv"
    and conv: "defaults_convert c"
  shows "\<exists>args. get_arguments c argv = Inr args"
proof -
  let ?P = "final_parser c"
  let ?F = "fst ` set (options argv)"
  let ?U = "unsupplied (optimizer_hyperparams c) (hyperparams c)"
  let ?tp = "\<lparr>option_strings = [], dest = ''testproblem'', action_kind = Store,
             required = True, default_value = Some NoneV, converted_default = None\<rparr>"
  have no_help: "action_kind a \<noteq> Help"
    if flag: "flag \<in> ?F" and a: "a \<in> set ?P" "flag \<in> set (option_strings a)" for flag a
  proof
    assume "action_kind a = Help"
    then have "a \<in> set ArgumentParser" using help_only a(1) by blast
    then have hf: "flag = ''-h'' \<or> flag = ''--help''" using a(2) by (auto simp: ArgumentParser_def)
    obtain b where b: "b \<in> set ?P" "action_kind b \<noteq> Help" "flag \<in> set (option_strings b)"
      using acc flag unfolding acceptable_def by blast
    from final_parser_cases [OF b(1)] show False
    proof (elim disjE exE bexE)
      assume "b \<in> set ArgumentParser"
      then show False using b(2) by (simp add: ArgumentParser_def)
    next
      fix n assume "(n, NoneV, b) \<in> set (builtin_arguments c)"
      then show False using builtin_flags_not_help b(3) hf by blast
    next
      fix h assume h: "h \<in> set ?U" "b = hp_action h"
      then have "flag = ''--'' @ hp_name h" using b(3) by (simp add: hp_action_def)
      moreover have "''--'' @ hp_name h \<notin> set (concat (map option_strings ArgumentParser))"
        using reg h(1) unfolding hp_registrable_def by auto
      ultimately show False using hf by (auto simp: ArgumentParser_def)
    qed
  qed
  have seen_all: "seen ?P argv a" if a: "a \<in> set ?P" "required a" for a
    using final_parser_cases [OF a(1)]
  proof (elim disjE exE bexE)
    assume "a \<in> set ArgumentParser"
    then show ?thesis using a(2) by (simp add: ArgumentParser_def)
  next
    fix n assume t: "(n, NoneV, a) \<in> set (builtin_arguments c)"
    from builtin_required [OF t a(2)] show ?thesis
    proof (elim disjE conjE)
      assume eq: "a = ?tp" and v: "NoneV = testproblem c"
      then have "positionals argv \<noteq> []" using miss by (auto simp: missing_required_def)
      then have "0 < length (positionals argv)" by simp
      then have "?tp \<in> set (take (length (positionals argv)) [?tp])" by (cases "length (positionals argv)") auto
      then show ?thesis using v eq by (simp add: seen_def positional_actions)
    next
      assume os: "option_strings a = [''--batch_size'', ''--bs'']" and v: "NoneV = batch_size c"
      then show ?thesis using miss by (simp add: missing_required_def seen_option)
    next
      assume os: "option_strings a = [''-N'', ''--num_epochs'']" and v: "NoneV = num_epochs c"
      then show ?thesis using miss by (simp add: missing_required_def seen_option)
    next
      assume os: "option_strings a = [''--learning_rate'', ''--lr'']" and v: "NoneV = learning_rate c"
      then show ?thesis using miss by (simp add: missing_required_def seen_option)
    qed
  next
    fix h assume h: "h \<in> set ?U" "a = hp_action h"
    then have "hp_default h = None" using a(2) by (simp add: hp_action_def)
    then have "''--'' @ hp_name h \<in> ?F" using miss h(1) unfolding missing_required_def by blast
    then show ?thesis using h(2) by (simp add: seen_option hp_action_def)
  qed
  have len: "length (positionals argv) \<le> length (filter (\<lambda>b. option_strings b = []) ?P)"
    using acc by (auto simp: acceptable_def positional_actions split: if_splits)
  have known: "find_action ?P flag \<noteq> None" if "flag \<in> ?F" for flag
    using acc that unfolding acceptable_def find_action_None_iff by auto
  have c1: "\<not> (\<exists>flag \<in> set (map fst (options argv)).
           \<exists>a \<in> set ?P. flag \<in> set (option_strings a) \<and> action_kind a = Help)"
    using no_help by auto
  have c2: "\<not> (\<exists>a \<in> set ?P. required a \<and> \<not> seen ?P argv a)"
    using seen_all by blast
  have c3: "\<not> (length (filter (\<lambda>b. option_strings b = []) ?P) < length (positionals argv)
        \<or> (\<exists>flag \<in> set (map fst (options argv)). find_action ?P flag = None))"
    using len known by auto
  obtain ns where c0: "convert_defaults (seen ?P argv) ?P (consumed ?P argv) = Inr ns"
    using final_parser_converts_ok [OF conv] by blast
  have ns: "parse_args ?P argv = Inr ns"
    unfolding parse_args_Inr_iff using c0 c1 c2 c3 by blast
  obtain args1 where run: "collect_arguments (builtin_arguments c) (Map.empty, ArgumentParser)
      = Inr (args1, ArgumentParser @ registered_of (builtin_arguments c))"
    using collect_builtin [of c] by blast
  let ?args = "(\<lambda>k. if k \<in> hp_name ` set (hyperparams c) \<and> optimizer_hyperparams c k \<noteq> None
                     then optimizer_hyperparams c k else args1 k) ++ ns"
  have "get_arguments c argv = Inr ?args"
    unfolding get_arguments_Inr_iff using reg run ns by blast
  then show ?thesis by blast
qed

lemma random_seed_flag_owner:
  assumes "(n, v, a) \<in> set (builtin_arguments c)" "''--random_seed'' \<in> set (option_strings a)"
  shows "\<not> required a \<and> dest a = ''random_seed'' \<and> action_kind a = Store \<and>
         default_value a = Some (IntV 42)"
  using assms(1) assms(2)
  unfolding builtin_arguments_def set_simps insert_iff empty_iff
  by (elim disjE) simp_all

lemma random_seed_registered:
  "random_seed c = NoneV \<Longrightarrow>
   ''--random_seed'' \<in> set (concat (map option_strings (ArgumentParser @ registered_of (builtin_arguments c))))"
proof -
  assume v: "random_seed c = NoneV"
  let ?a = "\<lparr>option_strings = [''-r'', ''--random_seed''], dest = ''random_seed'', action_kind = Store,
         required = False, default_value = Some (IntV 42), converted_default = None\<rparr>"
  have "(''random_seed'', NoneV, ?a) \<in> set (builtin_arguments c)"
    using v by (simp add: builtin_arguments_def)
  then have "?a \<in> set (registered_of (builtin_arguments c))" by (rule registered_of_member)
  then show ?thesis by force
qed

lemma seed_flag_action:
  assumes v: "random_seed c = NoneV" and reg: "hp_registrable c"
    and a: "a \<in> set (final_parser c)" "''--random_seed'' \<in> set (option_strings a)"
  shows "\<not> required a \<and> dest a = ''random_seed'' \<and> action_kind a = Store \<and>
         default_value a = Some (IntV 42)"
  using final_parser_cases [OF a(1)]
proof (elim disjE exE bexE)
  assume "a \<in> set ArgumentParser"
  then show ?thesis using a(2) by (simp add: ArgumentParser_def)
next
  fix n assume "(n, NoneV, a) \<in> set (builtin_arguments c)"
  then show ?thesis using a(2) by (rule random_seed_flag_owner)
next
  fix h assume h: "h \<in> set (unsupplied (optimizer_hyperparams c) (hyperparams c))" "a = hp_action h"
  then have "''--'' @ hp_name h = ''--random_seed''" using a(2) by (simp add: hp_action_def)
  moreover have "''--'' @ hp_name h \<notin> set (concat (map option_strings (ArgumentParser @ registered_of (builtin_arguments c))))"
    using reg h(1) unfolding hp_registrable_def by blast
  ultimately show ?thesis using random_seed_registered [OF v] by simp
qed

lemma seed_not_required:
  assumes v: "random_seed c = NoneV"
    and ret: "get_arguments c (argv\<lparr>options := (''--random_seed'', w) # options argv\<rparr>) = Inr args'"
  shows "\<exists>args. get_arguments c argv = Inr args"
proof -
  let ?P = "final_parser c"
  let ?argv' = "argv\<lparr>options := (''--random_seed'', w) # options argv\<rparr>"
  let ?U = "unsupplied (optimizer_hyperparams c) (hyperparams c)"
  let ?k = "''random_seed''"
  let ?base = "store_positionals (zip (filter (\<lambda>b. option_strings b = []) ?P) (positionals argv))
                 (initial_namespace ?P)"
  obtain args1 ns' where reg: "hp_registrable c"
    and run: "collect_arguments (builtin_arguments c) (Map.empty, ArgumentParser)
          = Inr (args1, ArgumentParser @ registered_of (builtin_arguments c))"
    and ns': "parse_args ?P ?argv' = Inr ns'"
    using ret unfolding get_arguments_Inr_iff by blast
  note p = ns' [unfolded parse_args_Inr_iff]
  have conv': "convert_defaults (seen ?P ?argv') ?P (consumed ?P ?argv') = Inr ns'"
    using p by blast
  note owner = seed_flag_action [OF v reg]
  have c1: "\<not> (\<exists>flag \<in> set (map fst (options argv)).
           \<exists>a \<in> set ?P. flag \<in> set (option_strings a) \<and> action_kind a = Help)"
    using p by auto
  have c2: "\<not> (\<exists>a \<in> set ?P. required a \<and> \<not> seen ?P argv a)"
  proof
    assume "\<exists>a \<in> set ?P. required a \<and> \<not> seen ?P argv a"
    then obtain a where a: "a \<in> set ?P" "required a" "\<not> seen ?P argv a" by blast
    have s': "seen ?P ?argv' a" using p a(1,2) by blast
    show False
    proof (cases "option_strings a = []")
      case True
      then show False using s' a(3) by (simp add: seen_def)
    next
      case False
      then have "''--random_seed'' \<in> set (option_strings a)"
        using s' a(3) by (auto simp: seen_def)
      then show False using owner a(1,2) by blast
    qed
  qed
  have c3: "\<not> (length (filter (\<lambda>b. option_strings b = []) ?P) < length (positionals argv)
        \<or> (\<exists>flag \<in> set (map fst (options argv)). find_action ?P flag = None))"
    using p by auto
  have "''--random_seed'' \<in> set (concat (map option_strings ?P))"
    using random_seed_registered [OF v] by (auto simp: final_parser_def)
  then obtain a where fa: "find_action ?P ''--random_seed'' = Some a"
    using find_action_None_iff [of ?P "''--random_seed''"] by (cases "find_action ?P ''--random_seed''") auto
  have a: "dest a = ?k" "action_kind a = Store"
    using owner find_action_Some [OF fa] by blast+
  have cons': "consumed ?P ?argv' = store_options ?P (options argv) (?base(?k \<mapsto> w))"
    unfolding consumed_def using fa a by simp
  have cons: "consumed ?P argv = store_options ?P (options argv) ?base"
    unfolding consumed_def by simp
  have "\<forall>k'. k' \<noteq> ?k \<longrightarrow> (?base(?k \<mapsto> w)) k' = ?base k'" by simp
  from store_options_agree [OF this, of ?P "options argv"]
  have off: "\<forall>k'. k' \<noteq> ?k \<longrightarrow> consumed ?P ?argv' k' = consumed ?P argv k'"
    and atk0: "consumed ?P ?argv' ?k = consumed ?P argv ?k \<or> consumed ?P argv ?k = ?base ?k"
    unfolding cons cons' by blast+
  have "?base ?k = Some (IntV 42)" using v by (rule positionals_random_seed)
  then have atk: "consumed ?P ?argv' ?k = consumed ?P argv ?k \<or>
      (\<exists>x. consumed ?P argv ?k = Some x \<and> (\<forall>s. x \<noteq> StrV s))"
    using atk0 by auto
  have g: "\<forall>b \<in> set ?P. (\<exists>s. default_value b = Some (StrV s)) \<longrightarrow> seen ?P ?argv' b = seen ?P argv b"
  proof (intro ballI impI)
    fix b assume b: "b \<in> set ?P" "\<exists>s. default_value b = Some (StrV s)"
    have "''--random_seed'' \<notin> set (option_strings b)" using owner [OF b(1)] b(2) by auto
    then show "seen ?P ?argv' b = seen ?P argv b" by (auto simp: seen_def)
  qed
  obtain ns where c0: "convert_defaults (seen ?P argv) ?P (consumed ?P argv) = Inr ns"
    using convert_defaults_mono [OF conv' off atk g] by blast
  have ns: "parse_args ?P argv = Inr ns"
    unfolding parse_args_Inr_iff using c0 c1 c2 c3 by blast
  let ?args = "(\<lambda>k. if k \<in> hp_name ` set (hyperparams c) \<and> optimizer_hyperparams c k \<noteq> None
                     then optimizer_hyperparams c k else args1 k) ++ ns"
  have "get_arguments c argv = Inr ?args"
    unfolding get_arguments_Inr_iff using reg run ns by blast
  then show ?thesis by blast
qed

text \<open>
  Claim C10. When the caller passes no random seed and no option of the command line
  stores into the destination \<open>random_seed\<close> (neither \<open>-r\<close> nor an option string whose
  destination is \<open>random_seed\<close>), the returned mapping binds \<open>random_seed\<close> to 42. The seed
  is not required: a call that returns with \<open>--random_seed\<close> on the command line also
  returns without it.
\<close>

theorem get_arguments_default_seed:
  "(get_arguments c argv = Inr args \<and> random_seed c = NoneV \<and>
    (\<forall>flag \<in> fst ` set (options argv). flag \<noteq> ''-r'' \<and> flag_dest flag \<noteq> ''random_seed'')
      \<longrightarrow> args ''random_seed'' = Some (IntV 42)) \<and>
   (random_seed c = NoneV \<and>
    (\<exists>args'. get_arguments c (argv\<lparr>options := (''--random_seed'', w) # options argv\<rparr>) = Inr args')
      \<longrightarrow> (\<exists>args. get_arguments c argv = Inr args))"
  using default_seed [of c argv args] seed_not_required [where c = c and argv = argv and w = w] by blast

lemma caller_value_kept:
  assumes ret: "get_arguments c argv = Inr args"
    and conv: "\<forall>(n, v, a) \<in> set (builtin_arguments c). optimizer_hyperparams c n = None"
    and noclash: "\<forall>h \<in> set (unsupplied (optimizer_hyperparams c) (hyperparams c)).
                    flag_dest (''--'' @ hp_name h) \<noteq> p"
  shows "((p, v, a) \<in> set (builtin_arguments c) \<and> v \<noteq> NoneV \<longrightarrow> args p = Some v) \<and>
         ((\<exists>h \<in> set (hyperparams c). hp_name h = p) \<and> optimizer_hyperparams c p = Some w
            \<longrightarrow> args p = Some w)"
proof -
  let ?P = "final_parser c"
  let ?kw = "optimizer_hyperparams c"
  obtain args1 ns where
    run: "collect_arguments (builtin_arguments c) (Map.empty, ArgumentParser)
          = Inr (args1, ArgumentParser @ registered_of (builtin_arguments c))"
    and ns: "parse_args ?P argv = Inr ns"
    and args: "args = (\<lambda>k. if k \<in> hp_name ` set (hyperparams c) \<and> ?kw k \<noteq> None then ?kw k else args1 k) ++ ns"
    using ret unfolding get_arguments_Inr_iff by blast
  have unset: "ns p = None"
    if other: "\<And>a'. (p, NoneV, a') \<in> set (builtin_arguments c) \<Longrightarrow> False"
  proof (rule ccontr)
    assume "ns p \<noteq> None"
    then have "p \<in> dom ns" by auto
    then obtain b where b: "b \<in> set ?P" "dest b = p"
      "default_value b \<noteq> None \<or> action_kind b \<noteq> Help \<or> option_strings b = []"
      using parse_args_dom_upper [OF ns] by auto
    from final_parser_dests [OF b(1,3)] show False
    proof (elim disjE exE conjE bexE)
      fix n assume "(n, NoneV, b) \<in> set (builtin_arguments c)" "dest b = n"
      then show False using other b(2) by blast
    next
      fix h assume "h \<in> set (unsupplied ?kw (hyperparams c))" "dest b = flag_dest (''--'' @ hp_name h)"
      then show False using noclash b(2) by auto
    qed
  qed
  have builtin: "args p = Some v" if t: "(p, v, a) \<in> set (builtin_arguments c)" and v: "v \<noteq> NoneV"
  proof -
    have "False" if "(p, NoneV, a') \<in> set (builtin_arguments c)" for a'
      using eq_key_imp_eq_value [OF builtin_names_distinct t that] v by simp
    then have "ns p = None" using unset by blast
    moreover have "?kw p = None" using conv t by auto
    moreover have "args1 p = Some v" using collect_arguments_value [OF run builtin_names_distinct t v] .
    ultimately show ?thesis by (simp add: args map_add_def)
  qed
  have hp: "args p = Some w" if h: "\<exists>h \<in> set (hyperparams c). hp_name h = p" and w: "?kw p = Some w"
  proof -
    have "False" if "(p, NoneV, a') \<in> set (builtin_arguments c)" for a'
      using conv that w by auto
    then have "ns p = None" using unset by blast
    moreover have "p \<in> hp_name ` set (hyperparams c)" using h by auto
    ultimately show ?thesis using w by (simp add: args map_add_def)
  qed
  show ?thesis using builtin hp by blast
qed

text \<open>
  Claim C8, as amended. Let the further keywords of the call not name a parameter (as the
  language guarantees), and let no hyperparameter that is resolved from the command line
  have the name \<open>p\<close> as the destination of its flag. Then a parameter \<open>p\<close> passed with
  a value other than \<open>None\<close>, and a hyperparameter \<open>p\<close> passed by the caller, is bound
  to exactly the caller's value in the returned mapping.
\<close>

theorem caller_values_win:
  "get_arguments c argv = Inr args \<and>
   (\<forall>(n, v, a) \<in> set (builtin_arguments c). optimizer_hyperparams c n = None) \<and>
   (\<forall>h \<in> set (unsupplied (optimizer_hyperparams c) (hyperparams c)).
      flag_dest (''--'' @ hp_name h) \<noteq> p) \<longrightarrow>
   ((p, v, a) \<in> set (builtin_arguments c) \<and> v \<noteq> NoneV \<longrightarrow> args p = Some v) \<and>
   ((\<exists>h \<in> set (hyperparams c). hp_name h = p) \<and> optimizer_hyperparams c p = Some w
      \<longrightarrow> args p = Some w)"
  using caller_value_kept [of c argv args p v a w] by blast







text \<open>The example calls.\<close>

lemma example_unsupplied:
  "unsupplied (optimizer_hyperparams example_call) (hyperparams example_call)
     = [\<lparr>hp_name = ''nesterov'', hp_type = py_bool, hp_default = Some (BoolV False)\<rparr>]"
  by (simp add: unsupplied_def example_call_def)

lemma example_registered:
  "registered_of (builtin_arguments example_call) =
     map (\<lambda>t. snd (snd t))
       (filter (\<lambda>t. fst t \<notin> {''batch_size'', ''learning_rate''}) (builtin_arguments example_call))"
  by (simp add: registered_of_def builtin_arguments_def example_call_def)

lemma example_registrable: "hp_registrable example_call"
  unfolding hp_registrable_def example_unsupplied example_registered
  by (simp add: flag_dest_def builtin_arguments_def ArgumentParser_def)

lemma example_not_missing: "\<not> missing_required example_call example_command_line"
  unfolding missing_required_def example_unsupplied
  by (simp add: example_call_def example_command_line_def)

lemma example_acceptable: "acceptable example_call example_command_line"
  unfolding acceptable_def final_parser_def example_unsupplied example_registered
  by (simp add: example_call_def example_command_line_def builtin_arguments_def)

lemma example_converts: "defaults_convert example_call"
  unfolding defaults_convert_def example_unsupplied by simp

lemma example_returns: "\<exists>args. get_arguments example_call example_command_line = Inr args"
  using example_not_missing example_registrable example_acceptable example_converts
  by (rule get_arguments_returns)








theorem get_arguments_default_seed_witness:
  "random_seed example_call = NoneV \<and>
   (\<exists>args. get_arguments example_call example_command_line = Inr args \<and>
      args ''random_seed'' = Some (IntV 42))"
proof -
  obtain args where ret: "get_arguments example_call example_command_line = Inr args"
    using example_returns by blast
  have v: "random_seed example_call = NoneV" by (simp add: example_call_def)
  have f: "\<forall>flag \<in> fst ` set (options example_command_line).
      flag \<noteq> ''-r'' \<and> flag_dest flag \<noteq> ''random_seed''"
    by (simp add: example_command_line_def flag_dest_def)
  have "args ''random_seed'' = Some (IntV 42)"
    using get_arguments_default_seed [of example_call example_command_line args] ret v f by blast
  then show ?thesis using ret v by blast
qed

theorem caller_values_win_witness:
  "\<exists>args. get_arguments example_call example_command_line = Inr args \<and>
      args ''batch_size'' = Some (IntV 128) \<and>
      args ''momentum'' = Some (FloatV (Finite False 1 (- 1)))"
proof -
  obtain args where ret: "get_arguments example_call example_command_line = Inr args"
    using example_returns by blast
  have conv: "\<forall>(n, v, a) \<in> set (builtin_arguments example_call). optimizer_hyperparams example_call n = None"
    by (simp add: builtin_arguments_def example_call_def)
  have clash: "\<forall>h \<in> set (unsupplied (optimizer_hyperparams example_call) (hyperparams example_call)).
      flag_dest (''--'' @ hp_name h) \<noteq> p" if "p = ''batch_size'' \<or> p = ''momentum''" for p
    unfolding example_unsupplied using that by (auto simp: flag_dest_def)
  let ?a = "\<lparr>option_strings = [''--batch_size'', ''--bs''], dest = ''batch_size'', action_kind = Store,
          required = True, default_value = Some NoneV, converted_default = None\<rparr>"
  have t: "(''batch_size'', IntV 128, ?a) \<in> set (builtin_arguments example_call)"
    by (simp add: builtin_arguments_def example_call_def)
  have "args ''batch_size'' = Some (IntV 128)"
    using caller_values_win [of example_call example_command_line args "''batch_size''" "IntV 128" ?a]
      ret conv clash [of "''batch_size''"] t by blast
  moreover have h: "\<exists>h \<in> set (hyperparams example_call). hp_name h = ''momentum''"
    by (simp add: example_call_def)
  have w: "optimizer_hyperparams example_call ''momentum'' = Some (FloatV (Finite False 1 (- 1)))"
    by (simp add: example_call_def)
  have "args ''momentum'' = Some (FloatV (Finite False 1 (- 1)))"
    using caller_values_win [of example_call example_command_line args "''momentum''" _ _
        "FloatV (Finite False 1 (- 1))"]
      ret conv clash [of "''momentum''"] h w by blast
  ultimately show ?thesis using ret by blast
qed



lemma stored_option:
  assumes "parse_args P argv = Inr ns" "options argv = [(flag, v)]"
    and "find_action P flag = Some a" "action_kind a = Store" "\<forall>s. v \<noteq> StrV s"
  shows "ns (dest a) = Some v"
proof -
  have conv: "convert_defaults (seen P argv) P (consumed P argv) = Inr ns"
    using assms(1) unfolding parse_args_Inr_iff by blast
  have "consumed P argv (dest a) = Some v"
    unfolding consumed_def using assms(2,3,4) by simp
  then show ?thesis using convert_defaults_keep [OF conv] assms(5) by blast
qed

text \<open>
  Claim C8 as stated fails: with a hyperparameter descriptor named \<open>batch_size\<close>, the
  caller's batch size 32 is overwritten by the value 64 of the flag \<open>--batch_size\<close>,
  which is registered for the hyperparameter.
\<close>

theorem caller_values_win_counterexample:
  "\<exists>args.
     get_arguments
       \<lparr>hyperparams = [\<lparr>hp_name = ''batch_size'', hp_type = digits_type, hp_default = None\<rparr>],
        testproblem = StrV ''cifar10_vgg16'', weight_decay = NoneV, batch_size = IntV 32,
        num_epochs = IntV 10, learning_rate = FloatV (Finite False 1 (- 1)),
        lr_sched_epochs = NoneV, lr_sched_factors = NoneV, random_seed = NoneV, data_dir = NoneV,
        output_dir = NoneV, train_log_interval = NoneV, print_train_iter = NoneV, no_logs = NoneV,
        optimizer_hyperparams = Map.empty\<rparr>
       \<lparr>positionals = [], options = [(''--batch_size'', IntV 64)]\<rparr>
     = Inr args \<and> args ''batch_size'' = Some (IntV 64)"
proof -
  let ?h = "\<lparr>hp_name = ''batch_size'', hp_type = digits_type, hp_default = None\<rparr>"
  let ?c = "\<lparr>hyperparams = [?h],
        testproblem = StrV ''cifar10_vgg16'', weight_decay = NoneV, batch_size = IntV 32,
        num_epochs = IntV 10, learning_rate = FloatV (Finite False 1 (- 1)),
        lr_sched_epochs = NoneV, lr_sched_factors = NoneV, random_seed = NoneV, data_dir = NoneV,
        output_dir = NoneV, train_log_interval = NoneV, print_train_iter = NoneV, no_logs = NoneV,
        optimizer_hyperparams = Map.empty\<rparr>"
  let ?argv = "\<lparr>positionals = [], options = [(''--batch_size'', IntV 64)]\<rparr>"
  have u: "unsupplied (optimizer_hyperparams ?c) (hyperparams ?c) = [?h]"
    by (simp add: unsupplied_def)
  have r: "registered_of (builtin_arguments ?c) =
     map (\<lambda>t. snd (snd t))
       (filter (\<lambda>t. fst t \<notin> {''testproblem'', ''batch_size'', ''num_epochs'', ''learning_rate''})
          (builtin_arguments ?c))"
    by (simp add: registered_of_def builtin_arguments_def)
  have fd: "flag_dest ''--batch_size'' = ''batch_size''" by (simp add: flag_dest_def)
  have reg: "hp_registrable ?c"
    unfolding hp_registrable_def u r using fd by (simp add: builtin_arguments_def ArgumentParser_def)
  have conv: "defaults_convert ?c" unfolding defaults_convert_def u by simp
  have miss: "\<not> missing_required ?c ?argv"
    unfolding missing_required_def u by simp
  have mem: "hp_action ?h \<in> set (final_parser ?c)"
    using hp_registered [of ?h ?c] u by simp
  then have acc: "acceptable ?c ?argv"
    unfolding acceptable_def by (force simp: hp_action_def)
  obtain args where ret: "get_arguments ?c ?argv = Inr args"
    using get_arguments_returns [OF miss reg acc conv] by blast
  then obtain args2 ns where ns: "parse_args (final_parser ?c) ?argv = Inr ns" and args: "args = args2 ++ ns"
    unfolding get_arguments_Inr_iff by blast
  have fa: "find_action (final_parser ?c) ''--batch_size'' = Some (hp_action ?h)"
    unfolding final_parser_def u r
    by (simp add: find_action_def builtin_arguments_def ArgumentParser_def hp_action_def)
  have k: "action_kind (hp_action ?h) = Store" by (simp add: hp_action_def)
  have o: "options ?argv = [(''--batch_size'', IntV 64)]" by simp
  have "ns (dest (hp_action ?h)) = Some (IntV 64)"
    by (rule stored_option [OF ns o fa k]) simp
  then have "ns ''batch_size'' = Some (IntV 64)" using fd by (simp add: hp_action_def)
  then have "args ''batch_size'' = Some (IntV 64)" by (simp add: args)
  then show ?thesis using ret by blast
qed

end
